theory Spec2Isabelle
  imports Main "HOL-Library.Word"
begin

section \<open>RuleTree: a rule-gated, weighted-random decision tree (RuleTree.h)\<close>

text \<open>
  The embedding follows the classes of \<^verbatim>\<open>RuleTree<ResultType>\<close>.

  \<^item> A \<^verbatim>\<open>TreeNode*\<close> is the address of a node object, or \<^verbatim>\<open>nullptr\<close>: a \<open>nat option\<close>,
    \<open>None\<close> being \<^verbatim>\<open>nullptr\<close>. Every node records its own address (\<open>this\<close>).
  \<^item> A Branch holds its children as the list of the node objects its \<^verbatim>\<open>m_nodes\<close> pointers
    refer to, in insertion order. The percentage map and the slot table are keyed by,
    and hold, pointers, as in the source; following a pointer of the slot table is a
    search of the children for that address.
  \<^item> \<^verbatim>\<open>size_t\<close> is a 64-bit unsigned word (LP64): \<open>+\<close> and \<open>-\<close> wrap around.
  \<^item> A \<^verbatim>\<open>Rule\<close> wraps a \<^verbatim>\<open>std::function<bool(ParentOrder&)>\<close>; it is taken to hold a
    total predicate without side effects (the empty function object of the
    default constructor is left out).
  \<^item> A member without an initialiser (\<^verbatim>\<open>m_parent\<close>, \<^verbatim>\<open>m_percentageAllocations\<close>) starts
    with whatever the storage held: the constructors take that content as an argument.
  \<^item> A call ends in one of three ways: it returns (\<open>Done\<close>, with the value and the
    state), it throws (\<open>Thrown\<close>, with the exception and the state at the throw), or
    its behaviour is undefined (\<open>Undefined\<close>: a division by zero, a pointer that
    refers to no child).
\<close>

subsection \<open>Data model\<close>

type_synonym ptr = "nat option"

type_synonym size_t = "64 word"

type_synonym 'o Rule = "'o \<Rightarrow> bool"

datatype Exception =
    BadPercentAllocation string size_t
  | NodeNotInBranch string
  | SumPercentNot100 string size_t

datatype ('a, 's) result =
    is_Done: Done (returned: 'a) (final: 's)
  | Thrown Exception 's
  | Undefined

record 'o TreeNode_members =
  this :: nat
  GetName :: string
  m_parent :: ptr
  m_rules :: "'o Rule list"

datatype ('o, 'r) Leaf =
  Leaf (leaf_base: "'o TreeNode_members") (m_val: 'r)

datatype ('o, 'r) TreeNode =
    LeafNode "('o, 'r) Leaf"
  | BranchNode "('o, 'r) Branch"
and ('o, 'r) Branch =
  Branch (branch_base: "'o TreeNode_members")
         (m_nodes: "('o, 'r) TreeNode list")
         (m_nodesPercentageMap: "ptr \<rightharpoonup> size_t")
         (m_percentageAllocations: "ptr list")
         (m_lastAllocated: size_t)

fun base :: "('o, 'r) TreeNode \<Rightarrow> 'o TreeNode_members" where
  "base (LeafNode l) = leaf_base l"
| "base (BranchNode b) = branch_base b"

fun IsLeaf :: "('o, 'r) TreeNode \<Rightarrow> bool" where
  "IsLeaf (LeafNode l) = True"
| "IsLeaf (BranchNode b) = False"

definition ptr_of :: "('o, 'r) TreeNode \<Rightarrow> ptr" where
  "ptr_of node = Some (this (base node))"

definition Branch_ptr :: "('o, 'r) Branch \<Rightarrow> ptr" where
  "Branch_ptr b = Some (this (branch_base b))"

subsection \<open>Rule and TreeNode\<close>


text \<open>The constructor of TreeNode sets the name only; \<open>uninit\<close> is the content of the
  storage of \<^verbatim>\<open>m_parent\<close>, which no initialiser writes.\<close>

definition TreeNode_new :: "ptr \<Rightarrow> nat \<Rightarrow> string \<Rightarrow> 'o TreeNode_members" where
  "TreeNode_new uninit a name =
     \<lparr>this = a, GetName = name, m_parent = uninit, m_rules = []\<rparr>"

definition Leaf_new :: "ptr \<Rightarrow> nat \<Rightarrow> string \<Rightarrow> 'r \<Rightarrow> ('o, 'r) Leaf" where
  "Leaf_new uninit a name val = Leaf (TreeNode_new uninit a name) val"

text \<open>The constructor of Branch: \<^verbatim>\<open>m_lastAllocated = 0\<close> is the only initialiser;
  the vector and the map start empty, the array holds \<open>uninit_slots\<close>.\<close>

definition Branch_new :: "ptr \<Rightarrow> ptr list \<Rightarrow> nat \<Rightarrow> string \<Rightarrow> ('o, 'r) Branch" where
  "Branch_new uninit uninit_slots a name =
     Branch (TreeNode_new uninit a name) [] Map.empty uninit_slots 0"


definition SetParent :: "ptr \<Rightarrow> 'o TreeNode_members \<Rightarrow> 'o TreeNode_members" where
  "SetParent node n = n\<lparr>m_parent := node\<rparr>"

definition GetParent :: "'o TreeNode_members \<Rightarrow> ptr" where
  "GetParent n = m_parent n"


fun node_SetParent :: "ptr \<Rightarrow> ('o, 'r) TreeNode \<Rightarrow> ('o, 'r) TreeNode" where
  "node_SetParent p (LeafNode (Leaf b v)) = LeafNode (Leaf (SetParent p b) v)"
| "node_SetParent p (BranchNode (Branch b ns m s l)) = BranchNode (Branch (SetParent p b) ns m s l)"

subsection \<open>Branch: configuration\<close>

definition AddNode :: "('o, 'r) TreeNode \<Rightarrow> ('o, 'r) Branch \<Rightarrow> ('o, 'r) Branch" where
  "AddNode node b =
     Branch (branch_base b) (m_nodes b @ [node_SetParent (Branch_ptr b) node])
       (m_nodesPercentageMap b) (m_percentageAllocations b) (m_lastAllocated b)"

text \<open>The loop of AllocatePercentage that writes the slots \<open>i\<close>, \<open>i + 1\<close>, ... below
  \<open>e\<close>. An index is written only inside the array: the guard of AllocatePercentage
  bounds \<open>e\<close> by 100.\<close>

function fill_slots :: "ptr list \<Rightarrow> size_t \<Rightarrow> size_t \<Rightarrow> ptr \<Rightarrow> ptr list" where
  "fill_slots slots i e node =
     (if i < e then fill_slots (slots[unat i := node]) (i + 1) e node else slots)"
  by pat_completeness auto
termination
proof (relation "measure (\<lambda>(slots, i, e, node). unat e - unat i)")
  show "wf (measure (\<lambda>(slots, i, e, node). unat e - unat i))" by simp
next
  fix slots :: "ptr list" and i e :: size_t and node :: ptr
  assume lt: "i < e"
  then have "unat i < unat e" by (simp add: word_less_nat_alt)
  moreover have "unat i + unat (1 :: size_t) < 2 ^ LENGTH(64)"
    using \<open>unat i < unat e\<close> unsigned_less [of e, where 'a = nat] by simp
  then have "unat (i + 1) = unat i + 1"
    by (simp add: unat_add_lem [THEN iffD1])
  ultimately show "((slots[unat i := node], i + 1, e, node), (slots, i, e, node))
        \<in> measure (\<lambda>(slots, i, e, node). unat e - unat i)"
    by simp
qed

declare fill_slots.simps [simp del]

text \<open>\<^verbatim>\<open>m_nodesPercentageMap[node]\<close>: a missing key reads as the value-initialised 0.\<close>

definition map_at :: "(ptr \<rightharpoonup> size_t) \<Rightarrow> ptr \<Rightarrow> size_t" where
  "map_at m node = (case m node of None \<Rightarrow> 0 | Some v \<Rightarrow> v)"

definition AllocatePercentage ::
  "size_t \<Rightarrow> ptr \<Rightarrow> ('o, 'r) Branch \<Rightarrow> (unit, ('o, 'r) Branch) result" where
  "AllocatePercentage percentage node b =
     (if m_lastAllocated b + percentage > 100 then
        Thrown (BadPercentAllocation (GetName (branch_base b)) (m_lastAllocated b + percentage)) b
      else if node \<notin> set (map ptr_of (m_nodes b)) then
        Thrown (NodeNotInBranch (GetName (branch_base b))) b
      else
        Done () (Branch (branch_base b) (m_nodes b)
          ((m_nodesPercentageMap b)(node \<mapsto> map_at (m_nodesPercentageMap b) node + percentage))
          (fill_slots (m_percentageAllocations b) (m_lastAllocated b)
             (m_lastAllocated b + percentage) node)
          (m_lastAllocated b + percentage)))"

text \<open>The two loops of SpreadPercentage over \<^verbatim>\<open>m_nodes\<close>. The second one returns from
  the function as soon as \<open>diff\<close> is used up (\<^verbatim>\<open>diff <= 0\<close> on an unsigned value).\<close>

fun SpreadPercentage_each ::
  "size_t \<Rightarrow> ('o, 'r) TreeNode list \<Rightarrow> ('o, 'r) Branch \<Rightarrow> (unit, ('o, 'r) Branch) result" where
  "SpreadPercentage_each probabilityPerNode [] b = Done () b"
| "SpreadPercentage_each probabilityPerNode (node # rest) b =
     (case AllocatePercentage probabilityPerNode (ptr_of node) b of
        Done _ b' \<Rightarrow> SpreadPercentage_each probabilityPerNode rest b'
      | Thrown e b' \<Rightarrow> Thrown e b'
      | Undefined \<Rightarrow> Undefined)"

fun SpreadPercentage_rest ::
  "size_t \<Rightarrow> ('o, 'r) TreeNode list \<Rightarrow> ('o, 'r) Branch \<Rightarrow> (unit, ('o, 'r) Branch) result" where
  "SpreadPercentage_rest diff [] b = Done () b"
| "SpreadPercentage_rest diff (node # rest) b =
     (if diff \<le> 0 then Done () b
      else case AllocatePercentage 1 (ptr_of node) b of
        Done _ b' \<Rightarrow> SpreadPercentage_rest (diff - 1) rest b'
      | Thrown e b' \<Rightarrow> Thrown e b'
      | Undefined \<Rightarrow> Undefined)"

text \<open>\<^verbatim>\<open>100 / m_nodes.size()\<close> is a division of \<^verbatim>\<open>size_t\<close> values: by zero its behaviour
  is undefined.\<close>

definition nodes_size :: "('o, 'r) Branch \<Rightarrow> size_t" where
  "nodes_size b = of_nat (length (m_nodes b))"

definition SpreadPercentage :: "('o, 'r) Branch \<Rightarrow> (unit, ('o, 'r) Branch) result" where
  "SpreadPercentage b =
     (if nodes_size b = 0 then Undefined
      else
        let probabilityPerNode = 100 div nodes_size b in
        case SpreadPercentage_each probabilityPerNode (m_nodes b) b of
          Done _ b1 \<Rightarrow>
            if m_lastAllocated b1 \<noteq> 100
            then SpreadPercentage_rest (100 - m_lastAllocated b1) (m_nodes b1) b1
            else Done () b1
        | Thrown e b1 \<Rightarrow> Thrown e b1
        | Undefined \<Rightarrow> Undefined)"

text \<open>ResetAllocations: the loop over the children writes the map of this Branch and
  resets every child that is a Branch.\<close>

fun ResetAllocations :: "('o, 'r) Branch \<Rightarrow> ('o, 'r) Branch"
and ResetAllocations_loop ::
  "('o, 'r) TreeNode list \<Rightarrow> (ptr \<rightharpoonup> size_t) \<Rightarrow> ('o, 'r) TreeNode list \<times> (ptr \<rightharpoonup> size_t)"
where
  "ResetAllocations (Branch members nodes m slots l) =
     (case ResetAllocations_loop nodes m of
        (nodes', m') \<Rightarrow> Branch members nodes' m' (map (\<lambda>allocation. None) slots) 0)"
| "ResetAllocations_loop [] m = ([], m)"
| "ResetAllocations_loop (LeafNode lf # rest) m =
     (case ResetAllocations_loop rest (m(ptr_of (LeafNode lf) \<mapsto> 0)) of
        (rest', m') \<Rightarrow> (LeafNode lf # rest', m'))"
| "ResetAllocations_loop (BranchNode branch # rest) m =
     (case ResetAllocations_loop rest (m(ptr_of (BranchNode branch) \<mapsto> 0)) of
        (rest', m') \<Rightarrow> (BranchNode (ResetAllocations branch) # rest', m'))"

text \<open>SpreadPercentageOnAllNotSetNodes. SpreadPercentage leaves \<^verbatim>\<open>m_nodes\<close> as it is
  (lemma \<open>SpreadPercentage_m_nodes\<close>), so the loop runs over the children matched here.\<close>

fun SpreadPercentageOnAllNotSetNodes ::
  "('o, 'r) Branch \<Rightarrow> (unit, ('o, 'r) Branch) result"
and SpreadPercentageOnAllNotSetNodes_loop ::
  "('o, 'r) TreeNode list \<Rightarrow> (unit, ('o, 'r) TreeNode list) result"
where
  "SpreadPercentageOnAllNotSetNodes (Branch members nodes m slots l) =
     (case (if l = 0 then SpreadPercentage (Branch members nodes m slots l)
            else Done () (Branch members nodes m slots l)) of
        Done _ b1 \<Rightarrow>
          (case SpreadPercentageOnAllNotSetNodes_loop nodes of
             Done _ nodes' \<Rightarrow>
               Done () (Branch (branch_base b1) nodes' (m_nodesPercentageMap b1)
                 (m_percentageAllocations b1) (m_lastAllocated b1))
           | Thrown e nodes' \<Rightarrow>
               Thrown e (Branch (branch_base b1) nodes' (m_nodesPercentageMap b1)
                 (m_percentageAllocations b1) (m_lastAllocated b1))
           | Undefined \<Rightarrow> Undefined)
      | Thrown e b1 \<Rightarrow> Thrown e b1
      | Undefined \<Rightarrow> Undefined)"
| "SpreadPercentageOnAllNotSetNodes_loop [] = Done () []"
| "SpreadPercentageOnAllNotSetNodes_loop (LeafNode lf # rest) =
     (case SpreadPercentageOnAllNotSetNodes_loop rest of
        Done _ rest' \<Rightarrow> Done () (LeafNode lf # rest')
      | Thrown e rest' \<Rightarrow> Thrown e (LeafNode lf # rest')
      | Undefined \<Rightarrow> Undefined)"
| "SpreadPercentageOnAllNotSetNodes_loop (BranchNode branch # rest) =
     (case SpreadPercentageOnAllNotSetNodes branch of
        Done _ branch' \<Rightarrow>
          (case SpreadPercentageOnAllNotSetNodes_loop rest of
             Done _ rest' \<Rightarrow> Done () (BranchNode branch' # rest')
           | Thrown e rest' \<Rightarrow> Thrown e (BranchNode branch' # rest')
           | Undefined \<Rightarrow> Undefined)
      | Thrown e branch' \<Rightarrow> Thrown e (BranchNode branch' # rest)
      | Undefined \<Rightarrow> Undefined)"

subsection \<open>Lookup by name\<close>

fun GetNodeByName :: "('o, 'r) TreeNode \<Rightarrow> string \<Rightarrow> ('o, 'r) TreeNode option"
and GetNodeByName_loop :: "('o, 'r) TreeNode list \<Rightarrow> string \<Rightarrow> ('o, 'r) TreeNode option"
where
  "GetNodeByName (LeafNode lf) name =
     (if GetName (leaf_base lf) = name then Some (LeafNode lf) else None)"
| "GetNodeByName (BranchNode (Branch members nodes m slots l)) name =
     (if GetName members = name then Some (BranchNode (Branch members nodes m slots l))
      else GetNodeByName_loop nodes name)"
| "GetNodeByName_loop [] name = None"
| "GetNodeByName_loop (node # rest) name =
     (case GetNodeByName node name of
        Some result \<Rightarrow> Some result
      | None \<Rightarrow> GetNodeByName_loop rest name)"

subsection \<open>Branch: routing\<close>


definition getRandomNode ::
  "('g \<Rightarrow> nat \<times> 'g) \<Rightarrow> ('o, 'r) Branch \<Rightarrow> 'g \<Rightarrow> (ptr, 'g) result" where
  "getRandomNode rand b g =
     (if m_lastAllocated b \<noteq> 100 then
        Thrown (SumPercentNot100 (GetName (branch_base b)) (m_lastAllocated b)) g
      else
        case rand g of
          (r, g') \<Rightarrow> let percent = r mod 100 in Done (m_percentageAllocations b ! percent) g')"






subsection \<open>Closed forms of the allocation state\<close>

text \<open>\<open>overwrite L ys slots\<close> is the table \<open>slots\<close> with the entries from index \<open>L\<close> on
  replaced by \<open>ys\<close>; \<open>add_each p ks m\<close> is the map after \<^verbatim>\<open>m[k] += p\<close> for every \<open>k\<close> of
  \<open>ks\<close> in turn. \<open>spread_slots\<close> and \<open>spread_map\<close> describe the table and the map that
  a uniform spread over \<open>n\<close> children with the pointers \<open>ps\<close> leaves.\<close>

definition overwrite :: "nat \<Rightarrow> 'a list \<Rightarrow> 'a list \<Rightarrow> 'a list" where
  "overwrite L ys slots = take L slots @ ys @ drop (L + length ys) slots"

definition add_each :: "size_t \<Rightarrow> ptr list \<Rightarrow> (ptr \<rightharpoonup> size_t) \<Rightarrow> (ptr \<rightharpoonup> size_t)" where
  "add_each p ks m = fold (\<lambda>k m. m(k \<mapsto> map_at m k + p)) ks m"

definition spread_slots :: "nat \<Rightarrow> ptr list \<Rightarrow> ptr list" where
  "spread_slots n ps = concat (map (replicate (100 div n)) ps) @ take (100 mod n) ps"

definition spread_map :: "nat \<Rightarrow> ptr list \<Rightarrow> (ptr \<rightharpoonup> size_t) \<Rightarrow> (ptr \<rightharpoonup> size_t)" where
  "spread_map n ps m = add_each 1 (take (100 mod n) ps) (add_each (of_nat (100 div n)) ps m)"

subsection \<open>Specifications\<close>

text \<open>The nodes of a subtree in pre-order: a node before its children, the children
  in insertion order.\<close>

fun preorder :: "('o, 'r) TreeNode \<Rightarrow> ('o, 'r) TreeNode list"
and preorder_list :: "('o, 'r) TreeNode list \<Rightarrow> ('o, 'r) TreeNode list"
where
  "preorder (LeafNode lf) = [LeafNode lf]"
| "preorder (BranchNode (Branch members nodes m slots l)) =
     BranchNode (Branch members nodes m slots l) # preorder_list nodes"
| "preorder_list [] = []"
| "preorder_list (node # rest) = preorder node @ preorder_list rest"

text \<open>The invariant of the allocation state of a Branch: the table has its 100 entries,
  the running total is at most 100, every slot below the running total holds a
  registered child, and the percentage map has entries for registered children only.\<close>

definition Branch_inv :: "('o, 'r) Branch \<Rightarrow> bool" where
  "Branch_inv b \<longleftrightarrow>
     length (m_percentageAllocations b) = 100
     \<and> m_lastAllocated b \<le> 100
     \<and> set (take (unat (m_lastAllocated b)) (m_percentageAllocations b))
          \<subseteq> set (map ptr_of (m_nodes b))
     \<and> dom (m_nodesPercentageMap b) \<subseteq> set (map ptr_of (m_nodes b))"



text \<open>A property of every Branch of a subtree: of the Branch itself and of every
  descendant that is a Branch.\<close>

fun all_branches :: "(('o, 'r) Branch \<Rightarrow> bool) \<Rightarrow> ('o, 'r) Branch \<Rightarrow> bool"
and all_branches_in :: "(('o, 'r) Branch \<Rightarrow> bool) \<Rightarrow> ('o, 'r) TreeNode list \<Rightarrow> bool"
where
  "all_branches P (Branch members nodes m slots l) =
     (P (Branch members nodes m slots l) \<and> all_branches_in P nodes)"
| "all_branches_in P [] = True"
| "all_branches_in P (LeafNode lf # rest) = all_branches_in P rest"
| "all_branches_in P (BranchNode b # rest) = (all_branches P b \<and> all_branches_in P rest)"

text \<open>The specification of SpreadPercentageOnAllNotSetNodes: in the whole subtree, a
  Branch whose running total is zero gets the allocation state that SpreadPercentage
  gives it, and every other Branch keeps its own.\<close>

fun spread_unset :: "('o, 'r) Branch \<Rightarrow> ('o, 'r) Branch"
and spread_unset_in :: "('o, 'r) TreeNode list \<Rightarrow> ('o, 'r) TreeNode list"
where
  "spread_unset (Branch members nodes m slots l) =
     (let own = (if l = 0 then final (SpreadPercentage (Branch members nodes m slots l))
                 else Branch members nodes m slots l)
      in Branch (branch_base own) (spread_unset_in nodes) (m_nodesPercentageMap own)
           (m_percentageAllocations own) (m_lastAllocated own))"
| "spread_unset_in [] = []"
| "spread_unset_in (LeafNode lf # rest) = LeafNode lf # spread_unset_in rest"
| "spread_unset_in (BranchNode b # rest) = BranchNode (spread_unset b) # spread_unset_in rest"

definition spreadable :: "('o, 'r) Branch \<Rightarrow> bool" where
  "spreadable b \<longleftrightarrow> (m_lastAllocated b = 0 \<longrightarrow> is_Done (SpreadPercentage b))"

text \<open>The freshly built tree with the same nodes: every Branch as its constructor and
  AddNode leave it, with an empty percentage map, a running total of zero and a slot
  table that holds whatever its storage held (\<open>uninit\<close>, by the address of the Branch).\<close>

fun fresh :: "(nat \<Rightarrow> ptr list) \<Rightarrow> ('o, 'r) Branch \<Rightarrow> ('o, 'r) Branch"
and fresh_in :: "(nat \<Rightarrow> ptr list) \<Rightarrow> ('o, 'r) TreeNode list \<Rightarrow> ('o, 'r) TreeNode list"
where
  "fresh uninit (Branch members nodes m slots l) =
     Branch members (fresh_in uninit nodes) Map.empty (uninit (this members)) 0"
| "fresh_in uninit [] = []"
| "fresh_in uninit (LeafNode lf # rest) = LeafNode lf # fresh_in uninit rest"
| "fresh_in uninit (BranchNode b # rest) = BranchNode (fresh uninit b) # fresh_in uninit rest"

text \<open>The children of a Branch after ResetAllocations.\<close>

fun reset_in :: "('o, 'r) TreeNode list \<Rightarrow> ('o, 'r) TreeNode list" where
  "reset_in [] = []"
| "reset_in (LeafNode lf # rest) = LeafNode lf # reset_in rest"
| "reset_in (BranchNode b # rest) = BranchNode (ResetAllocations b) # reset_in rest"

definition well_formed :: "('o, 'r) Branch \<Rightarrow> bool" where
  "well_formed b \<longleftrightarrow> Branch_inv b \<and> length (m_nodes b) < 2 ^ 64"

definition has_children :: "('o, 'r) Branch \<Rightarrow> bool" where
  "has_children b \<longleftrightarrow> m_nodes b \<noteq> []"

text \<open>The states of a Branch object that the operations of the class produce: it is
  constructed (its array has 100 entries), and then changed by AddNode,
  AllocatePercentage, SpreadPercentage, ResetAllocations and
  SpreadPercentageOnAllNotSetNodes, returning or throwing, by AddRule and SetParent
  on the Branch itself, and by any operation on its children, which stay at their
  addresses.\<close>

inductive reachable :: "('o, 'r) Branch \<Rightarrow> bool" where
  constructed:
    "length uninit_slots = 100 \<Longrightarrow> reachable (Branch_new uninit uninit_slots a name)"
| added:
    "reachable b \<Longrightarrow> reachable (AddNode node b)"
| allocated:
    "reachable b \<Longrightarrow> AllocatePercentage percentage node b = Done u b' \<Longrightarrow> reachable b'"
| spread:
    "reachable b \<Longrightarrow> SpreadPercentage b = Done u b' \<or> SpreadPercentage b = Thrown e b' \<Longrightarrow>
     reachable b'"
| reset:
    "reachable b \<Longrightarrow> reachable (ResetAllocations b)"
| spread_all:
    "reachable b \<Longrightarrow>
     SpreadPercentageOnAllNotSetNodes b = Done u b'
       \<or> SpreadPercentageOnAllNotSetNodes b = Thrown e b' \<Longrightarrow>
     reachable b'"
| members:
    "reachable b \<Longrightarrow>
     reachable (Branch members (m_nodes b) (m_nodesPercentageMap b)
       (m_percentageAllocations b) (m_lastAllocated b))"
| children:
    "reachable b \<Longrightarrow> map ptr_of nodes = map ptr_of (m_nodes b) \<Longrightarrow>
     reachable (Branch (branch_base b) nodes (m_nodesPercentageMap b)
       (m_percentageAllocations b) (m_lastAllocated b))"

text \<open>The uniformly spread tree with the same nodes: every Branch has a running total
  of 100, the slot table of a uniform spread over its children and the percentage map
  of that spread, starting from no entries.\<close>

fun uniform :: "('o, 'r) Branch \<Rightarrow> ('o, 'r) Branch"
and uniform_in :: "('o, 'r) TreeNode list \<Rightarrow> ('o, 'r) TreeNode list"
where
  "uniform (Branch members nodes m slots l) =
     Branch members (uniform_in nodes)
       (spread_map (length nodes) (map ptr_of nodes) Map.empty)
       (spread_slots (length nodes) (map ptr_of nodes)) 100"
| "uniform_in [] = []"
| "uniform_in (LeafNode lf # rest) = LeafNode lf # uniform_in rest"
| "uniform_in (BranchNode b # rest) = BranchNode (uniform b) # uniform_in rest"

definition uniformly_spread :: "('o, 'r) Branch \<Rightarrow> bool" where
  "uniformly_spread b \<longleftrightarrow>
     m_lastAllocated b = 100
     \<and> m_percentageAllocations b
         = spread_slots (length (m_nodes b)) (map ptr_of (m_nodes b))
     \<and> m_nodesPercentageMap b
         = spread_map (length (m_nodes b)) (map ptr_of (m_nodes b)) Map.empty"

subsection \<open>A small tree\<close>

text \<open>A root Branch at address 1 with three Leaves A, B and C at the addresses 2, 3
  and 4, built with the constructors and AddNode; the subject type is \<open>unit\<close>, a Leaf's
  outcome is a number.\<close>

definition example_leaf :: "nat \<Rightarrow> string \<Rightarrow> (unit, nat) TreeNode" where
  "example_leaf a name = LeafNode (Leaf_new None a name a)"

definition example_root :: "(unit, nat) Branch" where
  "example_root =
     AddNode (example_leaf 4 ''C'') (AddNode (example_leaf 3 ''B'') (AddNode (example_leaf 2 ''A'')
       (Branch_new None (replicate 100 None) 1 ''root'')))"

text \<open>The small tree with one more child of the root: the Branch \<open>inner\<close> at
  address 5, which holds the Leaf D at address 6.\<close>

definition example_tree :: "(unit, nat) TreeNode" where
  "example_tree =
     BranchNode (AddNode (BranchNode (AddNode (example_leaf 6 ''D'')
         (Branch_new None (replicate 100 None) 5 ''inner''))) example_root)"

text \<open>The root of the small tree after SpreadPercentage, and a random source that
  gives 0, 1, 2, ... in turn.\<close>

definition example_spread :: "(unit, nat) Branch" where
  "example_spread = final (SpreadPercentage example_root)"

definition count_up :: "nat \<Rightarrow> nat \<times> nat" where
  "count_up g = (g, Suc g)"


text \<open>The tree of \<open>example_tree\<close> after the explicit allocation of 40 percent of the root
  to the Leaf A.\<close>

definition example_partial :: "(unit, nat) Branch" where
  "example_partial =
     final (AllocatePercentage 40 (Some 2)
       (AddNode (BranchNode (AddNode (example_leaf 6 ''D'')
         (Branch_new None (replicate 100 None) 5 ''inner''))) example_root))"

text \<open>A root with two Leaves that have the same name.\<close>

definition example_twins :: "(unit, nat) TreeNode" where
  "example_twins =
     BranchNode (AddNode (example_leaf 3 ''A'') (AddNode (example_leaf 2 ''A'')
       (Branch_new None (replicate 100 None) 1 ''root'')))"

section \<open>Properties\<close>

subsection \<open>AllocatePercentage and SpreadPercentage\<close>

lemma fill_slots_eq:
  "i \<le> e \<Longrightarrow> unat e \<le> length slots \<Longrightarrow>
   fill_slots slots i e node =
     take (unat i) slots @ replicate (unat e - unat i) node @ drop (unat e) slots"
proof (induction slots i e node rule: fill_slots.induct)
  case (1 slots i e node)
  show ?case
  proof (cases "i < e")
    case True
    then have lt: "unat i < unat e" by (simp add: word_less_nat_alt)
    have "unat i + unat (1 :: size_t) < 2 ^ LENGTH(64)"
      using lt unsigned_less [of e, where 'a = nat] by simp
    then have suc: "unat (i + 1) = Suc (unat i)"
      by (simp add: unat_add_lem [THEN iffD1])
    have le: "i + 1 \<le> e" using lt suc by (simp add: word_le_nat_alt)
    have "fill_slots slots i e node = fill_slots (slots[unat i := node]) (i + 1) e node"
      using True by (subst fill_slots.simps) simp
    also have "\<dots> = take (Suc (unat i)) (slots[unat i := node])
          @ replicate (unat e - Suc (unat i)) node @ drop (unat e) (slots[unat i := node])"
      using "1.IH" [OF True le] "1.prems" suc by simp
    also have "take (Suc (unat i)) (slots[unat i := node]) = take (unat i) slots @ [node]"
      using lt "1.prems" by (simp add: take_Suc_conv_app_nth)
    also have "drop (unat e) (slots[unat i := node]) = drop (unat e) slots"
      using lt by simp
    also have "(take (unat i) slots @ [node]) @ replicate (unat e - Suc (unat i)) node @ drop (unat e) slots
        = take (unat i) slots @ replicate (unat e - unat i) node @ drop (unat e) slots"
      using lt by (simp add: replicate_app_Cons_same Suc_diff_Suc flip: replicate_Suc)
    finally show ?thesis .
  next
    case False
    with "1.prems" have "i = e" by simp
    then show ?thesis by (subst fill_slots.simps) simp
  qed
qed

lemma fill_slots_empty: "\<not> i < e \<Longrightarrow> fill_slots slots i e node = slots"
  by (subst fill_slots.simps) simp

lemma length_overwrite:
  "L + length ys \<le> length slots \<Longrightarrow> length (overwrite L ys slots) = length slots"
  by (simp add: overwrite_def)

lemma overwrite_overwrite:
  "L + length ys + length zs \<le> length slots \<Longrightarrow>
   overwrite (L + length ys) zs (overwrite L ys slots) = overwrite L (ys @ zs) slots"
proof -
  assume le: "L + length ys + length zs \<le> length slots"
  then have L: "min (length slots) L = L" by simp
  have "take (L + length ys) (take L slots @ ys @ drop (L + length ys) slots) = take L slots @ ys"
    using L by simp
  moreover have "drop (L + length ys + length zs) (take L slots @ ys @ drop (L + length ys) slots)
      = drop (L + length ys + length zs) slots"
    using L by (simp add: add.commute)
  ultimately show ?thesis
    by (simp add: overwrite_def add.assoc)
qed

lemma overwrite_all: "length ys = length slots \<Longrightarrow> overwrite 0 ys slots = ys"
  by (simp add: overwrite_def)

lemma unat_of_nat_small: "n \<le> 100 \<Longrightarrow> unat (of_nat n :: size_t) = n"
  by (simp add: unat_of_nat)

lemma AllocatePercentage_Done:
  assumes last: "m_lastAllocated b = of_nat L"
    and le: "L + unat percentage \<le> 100"
    and child: "node \<in> set (map ptr_of (m_nodes b))"
    and len: "length (m_percentageAllocations b) = 100"
  shows "AllocatePercentage percentage node b =
     Done () (Branch (branch_base b) (m_nodes b)
       ((m_nodesPercentageMap b)(node \<mapsto> map_at (m_nodesPercentageMap b) node + percentage))
       (overwrite L (replicate (unat percentage) node) (m_percentageAllocations b))
       (of_nat (L + unat percentage)))"
proof -
  have uL: "unat (m_lastAllocated b) = L"
    using last le by (simp add: unat_of_nat_small)
  have "unat (m_lastAllocated b) + unat percentage < 2 ^ LENGTH(64)"
    using uL le by simp
  then have sum: "unat (m_lastAllocated b + percentage) = L + unat percentage"
    using uL by (simp add: unat_add_lem [THEN iffD1])
  then have eq: "m_lastAllocated b + percentage = of_nat (L + unat percentage)"
    using last by simp
  have guard: "\<not> 100 < m_lastAllocated b + percentage"
    using sum le by (simp add: word_less_nat_alt)
  have mono: "m_lastAllocated b \<le> m_lastAllocated b + percentage"
    using sum uL by (simp add: word_le_nat_alt)
  have "fill_slots (m_percentageAllocations b) (m_lastAllocated b)
          (m_lastAllocated b + percentage) node
        = overwrite L (replicate (unat percentage) node) (m_percentageAllocations b)"
    using fill_slots_eq [OF mono, of "m_percentageAllocations b" node] sum uL le len
    by (simp add: overwrite_def)
  then show ?thesis
    using guard child eq by (simp add: AllocatePercentage_def)
qed

lemma AllocatePercentage_Thrown:
  "AllocatePercentage percentage node b = Thrown e b' \<Longrightarrow> b' = b"
  by (auto simp: AllocatePercentage_def split: if_splits)

lemma AllocatePercentage_defined: "AllocatePercentage percentage node b \<noteq> Undefined"
  by (simp add: AllocatePercentage_def)

lemma AllocatePercentage_m_nodes:
  "AllocatePercentage percentage node b = Done u b' \<Longrightarrow>
   m_nodes b' = m_nodes b \<and> branch_base b' = branch_base b"
  by (auto simp: AllocatePercentage_def split: if_splits)

lemma SpreadPercentage_each_Done:
  assumes "m_lastAllocated b = of_nat L"
    and "L + unat q * length xs \<le> 100"
    and "set xs \<subseteq> set (m_nodes b)"
    and "length (m_percentageAllocations b) = 100"
  shows "SpreadPercentage_each q xs b =
     Done () (Branch (branch_base b) (m_nodes b)
       (add_each q (map ptr_of xs) (m_nodesPercentageMap b))
       (overwrite L (concat (map (replicate (unat q)) (map ptr_of xs))) (m_percentageAllocations b))
       (of_nat (L + unat q * length xs)))"
  using assms
proof (induction xs arbitrary: b L)
  case Nil
  then show ?case by (cases b) (simp add: add_each_def overwrite_def)
next
  case (Cons x xs)
  let ?b1 = "Branch (branch_base b) (m_nodes b)
       ((m_nodesPercentageMap b)(ptr_of x \<mapsto> map_at (m_nodesPercentageMap b) (ptr_of x) + q))
       (overwrite L (replicate (unat q) (ptr_of x)) (m_percentageAllocations b))
       (of_nat (L + unat q))"
  have le1: "L + unat q \<le> 100" using Cons.prems(2) by simp
  have step: "AllocatePercentage q (ptr_of x) b = Done () ?b1"
    using Cons.prems by (intro AllocatePercentage_Done) auto
  have len1: "length (m_percentageAllocations ?b1) = 100"
    using Cons.prems(4) le1 by (simp add: length_overwrite)
  have IH: "SpreadPercentage_each q xs ?b1 =
     Done () (Branch (branch_base ?b1) (m_nodes ?b1)
       (add_each q (map ptr_of xs) (m_nodesPercentageMap ?b1))
       (overwrite (L + unat q) (concat (map (replicate (unat q)) (map ptr_of xs))) (m_percentageAllocations ?b1))
       (of_nat ((L + unat q) + unat q * length xs)))"
    using Cons.prems len1 by (intro Cons.IH) (auto simp: algebra_simps)
  have len_concat: "length (concat (map (replicate (unat q)) (map ptr_of xs))) = unat q * length xs"
    by (induction xs) auto
  have ow: "overwrite (L + unat q) (concat (map (replicate (unat q)) (map ptr_of xs)))
              (overwrite L (replicate (unat q) (ptr_of x)) (m_percentageAllocations b))
          = overwrite L (concat (map (replicate (unat q)) (map ptr_of (x # xs)))) (m_percentageAllocations b)"
    using overwrite_overwrite [of L "replicate (unat q) (ptr_of x)"
        "concat (map (replicate (unat q)) (map ptr_of xs))" "m_percentageAllocations b"]
      Cons.prems(2,4) len_concat by (simp add: algebra_simps)
  show ?case
    using step IH ow by (simp add: add_each_def algebra_simps)
qed

lemma SpreadPercentage_rest_each:
  "SpreadPercentage_rest diff xs b = SpreadPercentage_each 1 (take (unat diff) xs) b"
proof (induction xs arbitrary: diff b)
  case Nil
  then show ?case by simp
next
  case (Cons x xs)
  show ?case
  proof (cases "diff = 0")
    case True
    then show ?thesis by simp
  next
    case False
    then have "unat diff \<noteq> 0" by (simp add: unat_eq_0)
    then obtain n where n: "unat diff = Suc n" by (cases "unat diff") auto
    have "unat (diff - 1) = n"
      using n False by (simp add: unat_minus_one)
    then show ?thesis
      using False n Cons.IH by (simp split: result.splits)
  qed
qed

lemma SpreadPercentage_each_m_nodes:
  "SpreadPercentage_each q xs b = Done u b' \<Longrightarrow>
   m_nodes b' = m_nodes b \<and> branch_base b' = branch_base b"
proof (induction xs arbitrary: b)
  case Nil
  then show ?case by simp
next
  case (Cons x xs)
  then show ?case
    by (auto split: result.splits dest!: AllocatePercentage_m_nodes)
qed

lemma SpreadPercentage_each_defined: "SpreadPercentage_each q xs b \<noteq> Undefined"
  by (induction xs arbitrary: b) (auto split: result.splits simp: AllocatePercentage_defined)

lemma SpreadPercentage_m_nodes:
  "SpreadPercentage b = Done u b' \<Longrightarrow> m_nodes b' = m_nodes b \<and> branch_base b' = branch_base b"
  by (auto simp: SpreadPercentage_def SpreadPercentage_rest_each Let_def
      split: if_splits result.splits dest!: SpreadPercentage_each_m_nodes)

lemma unat_nodes_size:
  "length (m_nodes b) < 2 ^ 64 \<Longrightarrow> unat (nodes_size b) = length (m_nodes b)"
  by (simp add: nodes_size_def unat_of_nat)

lemma SpreadPercentage_Undefined_iff:
  assumes "length (m_nodes b) < 2 ^ 64"
  shows "SpreadPercentage b = Undefined \<longleftrightarrow> m_nodes b = []"
proof
  assume "m_nodes b = []"
  then show "SpreadPercentage b = Undefined"
    by (simp add: SpreadPercentage_def nodes_size_def)
next
  assume u: "SpreadPercentage b = Undefined"
  show "m_nodes b = []"
  proof (rule ccontr)
    assume "m_nodes b \<noteq> []"
    then have "unat (nodes_size b) \<noteq> 0"
      using assms by (simp add: unat_nodes_size)
    then have "nodes_size b \<noteq> 0" by auto
    with u show False
      by (auto simp: SpreadPercentage_def SpreadPercentage_rest_each Let_def
          SpreadPercentage_each_defined split: if_splits result.splits)
  qed
qed

lemma length_concat_replicate:
  "length (concat (map (replicate k) xs)) = k * length xs"
  by (induction xs) auto

lemma length_spread_slots: "ps \<noteq> [] \<Longrightarrow> length (spread_slots (length ps) ps) = 100"
proof -
  assume "ps \<noteq> []"
  then have "100 mod length ps < length ps" by simp
  then have "min (length ps) (100 mod length ps) = 100 mod length ps" by simp
  then show ?thesis
    by (simp add: spread_slots_def length_concat_replicate)
qed

lemma SpreadPercentage_Done:
  assumes ne: "m_nodes b \<noteq> []"
    and sz: "length (m_nodes b) < 2 ^ 64"
    and last0: "m_lastAllocated b = 0"
    and len: "length (m_percentageAllocations b) = 100"
  shows "SpreadPercentage b =
     Done () (Branch (branch_base b) (m_nodes b)
       (spread_map (length (m_nodes b)) (map ptr_of (m_nodes b)) (m_nodesPercentageMap b))
       (spread_slots (length (m_nodes b)) (map ptr_of (m_nodes b)))
       100)"
proof -
  define N where "N = length (m_nodes b)"
  define ps where "ps = map ptr_of (m_nodes b)"
  define q where "q = 100 div N"
  define r where "r = 100 mod N"
  define qw where "qw = 100 div nodes_size b"
  define first where "first = concat (map (replicate q) ps)"
  have unatN: "unat (nodes_size b) = N" using sz unfolding N_def by (rule unat_nodes_size)
  have Npos: "0 < N" using ne by (simp add: N_def)
  then have nz: "nodes_size b \<noteq> 0" using unatN by auto
  have q: "unat qw = q" by (simp add: qw_def q_def unat_div unatN)
  have "(of_nat (unat qw) :: size_t) = qw" by simp
  then have qw_eq: "qw = of_nat q" using q by simp
  have r: "q * N + r = 100" by (simp add: q_def r_def)
  have rlt: "r < N" using Npos by (simp add: r_def)
  have lps: "length ps = N" by (simp add: ps_def N_def)
  have lfirst: "length first = q * N"
    by (simp add: first_def length_concat_replicate lps)
  define b1 where "b1 = Branch (branch_base b) (m_nodes b)
       (add_each qw ps (m_nodesPercentageMap b))
       (overwrite 0 first (m_percentageAllocations b))
       (of_nat (q * N) :: size_t)"
  have each: "SpreadPercentage_each qw (m_nodes b) b = Done () b1"
    using SpreadPercentage_each_Done [of b 0 qw "m_nodes b"] last0 len r
    by (simp add: b1_def first_def ps_def q N_def)
  have len1: "length (m_percentageAllocations b1) = 100"
    using length_overwrite [of 0 first "m_percentageAllocations b"] lfirst len r
    by (simp add: b1_def)
  have take_ps: "map ptr_of (take r (m_nodes b)) = take r ps"
    by (simp add: ps_def take_map)
  have c1: "concat (map (replicate 1) (take r ps)) = take r ps"
    by (induction "take r ps") auto
  have ltake: "length (take r ps) = r" using rlt lps by simp
  have ow: "overwrite (q * N) (take r ps) (overwrite 0 first (m_percentageAllocations b))
        = first @ take r ps"
  proof -
    have "overwrite (0 + length first) (take r ps)
          (overwrite 0 first (m_percentageAllocations b))
        = overwrite 0 (first @ take r ps) (m_percentageAllocations b)"
      using len r lfirst ltake by (intro overwrite_overwrite) simp
    also have "\<dots> = first @ take r ps"
      using len r lfirst ltake by (intro overwrite_all) simp
    finally show ?thesis by (simp add: lfirst)
  qed
  have second: "SpreadPercentage_each 1 (take r (m_nodes b)) b1 =
     Done () (Branch (branch_base b) (m_nodes b)
       (add_each 1 (take r ps) (add_each qw ps (m_nodesPercentageMap b)))
       (first @ take r ps) 100)"
  proof -
    have "length (take r (m_nodes b)) = r" using rlt by (simp add: N_def)
    then have "q * N + unat (1 :: size_t) * length (take r (m_nodes b)) \<le> 100"
      using r by simp
    from SpreadPercentage_each_Done [of b1 "q * N" 1 "take r (m_nodes b)", OF _ this _ len1]
    have "SpreadPercentage_each 1 (take r (m_nodes b)) b1 =
      Done () (Branch (branch_base b1) (m_nodes b1)
        (add_each 1 (map ptr_of (take r (m_nodes b))) (m_nodesPercentageMap b1))
        (overwrite (q * N) (concat (map (replicate (unat (1 :: size_t))) (map ptr_of (take r (m_nodes b)))))
          (m_percentageAllocations b1))
        (of_nat (q * N + unat (1 :: size_t) * length (take r (m_nodes b)))))"
      by (simp add: b1_def set_take_subset)
    also have "concat (map (replicate (unat (1 :: size_t))) (map ptr_of (take r (m_nodes b)))) = take r ps"
      unfolding take_ps using c1 by simp
    also have "(of_nat (q * N + unat (1 :: size_t) * length (take r (m_nodes b))) :: size_t) = 100"
      using \<open>length (take r (m_nodes b)) = r\<close> r by simp
    finally show ?thesis
      using ow by (simp add: b1_def take_ps)
  qed
  have diff: "unat (100 - of_nat (q * N) :: size_t) = r"
  proof -
    have "(of_nat (q * N + r) :: size_t) = 100" using r by simp
    then have "(100 :: size_t) - of_nat (q * N) = of_nat r"
      by (simp add: algebra_simps)
    moreover have "r \<le> 100" using r by linarith
    ultimately show ?thesis by (simp add: unat_of_nat_small)
  qed
  have cases: "(if m_lastAllocated b1 \<noteq> 100
            then SpreadPercentage_rest (100 - m_lastAllocated b1) (m_nodes b1) b1
            else Done () b1) = SpreadPercentage_each 1 (take r (m_nodes b)) b1"
  proof (cases "m_lastAllocated b1 = 100")
    case True
    then have "unat (of_nat (q * N) :: size_t) = 100" by (simp add: b1_def)
    moreover have "q * N \<le> 100" using r by linarith
    ultimately have "q * N = 100" using unat_of_nat_small [of "q * N"] by simp
    then have "r = 0" using r by linarith
    then show ?thesis using True by simp
  next
    case False
    then show ?thesis using diff by (simp add: SpreadPercentage_rest_each b1_def)
  qed
  have "SpreadPercentage b = SpreadPercentage_each 1 (take r (m_nodes b)) b1"
    unfolding SpreadPercentage_def Let_def
    using nz each cases by (simp add: qw_def)
  then have "SpreadPercentage b = Done () (Branch (branch_base b) (m_nodes b)
       (add_each 1 (take r ps) (add_each (of_nat q) ps (m_nodesPercentageMap b)))
       (first @ take r ps) 100)"
    using second qw_eq by simp
  then show ?thesis
    by (simp add: spread_map_def spread_slots_def first_def ps_def q_def r_def N_def)
qed

lemma example_root_eq:
  "example_root = Branch \<lparr>this = 1, GetName = ''root'', m_parent = None, m_rules = []\<rparr>
     [LeafNode (Leaf \<lparr>this = 2, GetName = ''A'', m_parent = Some 1, m_rules = []\<rparr> 2),
      LeafNode (Leaf \<lparr>this = 3, GetName = ''B'', m_parent = Some 1, m_rules = []\<rparr> 3),
      LeafNode (Leaf \<lparr>this = 4, GetName = ''C'', m_parent = Some 1, m_rules = []\<rparr> 4)]
     Map.empty (replicate 100 None) 0"
  by (simp add: example_root_def example_leaf_def AddNode_def Branch_new_def Leaf_new_def
      TreeNode_new_def SetParent_def Branch_ptr_def)

text \<open>C3. AllocatePercentage, called with a node that is a registered child and a
  percentage that keeps the running total within 100, returns normally; it writes the
  node into exactly \<open>percentage\<close> contiguous slots starting at the running total and
  leaves the other slots as they were, adds \<open>percentage\<close> to the node's entry of the
  percentage map, and advances the running total by \<open>percentage\<close>.\<close>

theorem AllocatePercentage_assigns:
  assumes "unat (m_lastAllocated b) + unat percentage \<le> 100"
    and "node \<in> set (map ptr_of (m_nodes b))"
    and "length (m_percentageAllocations b) = 100"
  shows "AllocatePercentage percentage node b =
     Done () (Branch (branch_base b) (m_nodes b)
       ((m_nodesPercentageMap b)(node \<mapsto> map_at (m_nodesPercentageMap b) node + percentage))
       (take (unat (m_lastAllocated b)) (m_percentageAllocations b)
          @ replicate (unat percentage) node
          @ drop (unat (m_lastAllocated b) + unat percentage) (m_percentageAllocations b))
       (m_lastAllocated b + percentage))
   \<and> unat (m_lastAllocated b + percentage) = unat (m_lastAllocated b) + unat percentage"
proof -
  have "unat (m_lastAllocated b) + unat percentage < 2 ^ LENGTH(64)"
    using assms(1) by simp
  then have sum: "unat (m_lastAllocated b + percentage) = unat (m_lastAllocated b) + unat percentage"
    by (simp add: unat_add_lem [THEN iffD1])
  have "(of_nat (unat (m_lastAllocated b) + unat percentage) :: size_t) = m_lastAllocated b + percentage"
    by simp
  then show ?thesis
    using AllocatePercentage_Done [of b "unat (m_lastAllocated b)" percentage node] assms sum
    by (simp add: overwrite_def)
qed

theorem AllocatePercentage_assigns_witness:
  "unat (m_lastAllocated example_root) + unat (30 :: size_t) \<le> 100
   \<and> Some 2 \<in> set (map ptr_of (m_nodes example_root))
   \<and> length (m_percentageAllocations example_root) = 100
   \<and> AllocatePercentage 30 (Some 2) example_root =
       Done () (Branch (branch_base example_root) (m_nodes example_root)
         [Some 2 \<mapsto> 30] (replicate 30 (Some 2) @ replicate 70 None) 30)"
  using AllocatePercentage_assigns [of example_root 30 "Some 2"]
  by (simp add: example_root_eq ptr_of_def map_at_def)

text \<open>C10. SpreadPercentage starts with the division of 100 by the number of children.
  With at least one child the division is defined and the undefined branch is never
  taken; on a Branch without children the call is undefined.\<close>

theorem SpreadPercentage_division:
  assumes "length (m_nodes b) < 2 ^ 64"
  shows "(m_nodes b \<noteq> [] \<longrightarrow> SpreadPercentage b \<noteq> Undefined)
       \<and> (m_nodes b = [] \<longrightarrow> SpreadPercentage b = Undefined)"
  using SpreadPercentage_Undefined_iff [OF assms] by simp

theorem SpreadPercentage_division_witness:
  "length (m_nodes example_root) < 2 ^ 64 \<and> m_nodes example_root \<noteq> []
   \<and> SpreadPercentage example_root \<noteq> Undefined
   \<and> length (m_nodes (Branch_new None (replicate 100 None) 1 ''b'' :: (unit, nat) Branch)) < 2 ^ 64
   \<and> m_nodes (Branch_new None (replicate 100 None) 1 ''b'' :: (unit, nat) Branch) = []
   \<and> SpreadPercentage (Branch_new None (replicate 100 None) 1 ''b'' :: (unit, nat) Branch) = Undefined"
  using SpreadPercentage_division [of example_root]
    SpreadPercentage_division [of "Branch_new None (replicate 100 None) 1 ''b'' :: (unit, nat) Branch"]
  by (simp add: example_root_eq Branch_new_def)

subsection \<open>The uniform spread\<close>

lemma add_each_apply:
  "add_each p ks m k =
     (if k \<in> set ks then Some (map_at m k + p * of_nat (count_list ks k)) else m k)"
proof (induction ks arbitrary: m)
  case Nil
  then show ?case by (simp add: add_each_def)
next
  case (Cons a ks)
  let ?m' = "m(a \<mapsto> map_at m a + p)"
  have step: "add_each p (a # ks) m = add_each p ks ?m'"
    by (simp add: add_each_def)
  have at: "map_at ?m' k = (if k = a then map_at m a + p else map_at m k)"
    by (simp add: map_at_def)
  have "add_each p ks ?m' k =
     (if k \<in> set ks then Some (map_at ?m' k + p * of_nat (count_list ks k)) else ?m' k)"
    by (rule Cons.IH)
  then show ?case
    unfolding step at by (simp add: algebra_simps)
qed

lemma map_at_add_each:
  "map_at (add_each p ks m) k = map_at m k + p * of_nat (count_list ks k)"
  by (simp add: add_each_apply map_at_def)

lemma count_list_replicate: "count_list (replicate k y) x = (if x = y then k else 0)"
  by (induction k) auto

lemma count_list_concat_replicate:
  "count_list (concat (map (replicate k) xs)) x = k * count_list xs x"
  by (induction xs) (auto simp: count_list_replicate)

lemma count_list_distinct_nth:
  "distinct xs \<Longrightarrow> i < length xs \<Longrightarrow> count_list (take n xs) (xs ! i) = (if i < n then 1 else 0)"
proof (induction xs arbitrary: i n)
  case Nil
  then show ?case by simp
next
  case (Cons a xs)
  show ?case
  proof (cases n)
    case 0
    then show ?thesis by simp
  next
    case (Suc n')
    show ?thesis
    proof (cases i)
      case 0
      have "a \<notin> set (take n' xs)" using Cons.prems(1) by (auto dest: in_set_takeD)
      then show ?thesis using 0 Suc by (simp add: count_list_0_iff)
    next
      case (Suc i')
      then have "xs ! i' \<noteq> a" using Cons.prems by auto
      then show ?thesis using Suc \<open>n = Suc n'\<close> Cons.IH [of i' n'] Cons.prems by simp
    qed
  qed
qed

lemma count_list_distinct_nth_all:
  "distinct xs \<Longrightarrow> i < length xs \<Longrightarrow> count_list xs (xs ! i) = 1"
  using count_list_distinct_nth [of xs i "length xs"] by simp

lemma spread_slots_count:
  assumes "distinct ps" "i < length ps"
  shows "count_list (spread_slots n ps) (ps ! i) = 100 div n + (if i < 100 mod n then 1 else 0)"
  using assms
  by (simp add: spread_slots_def count_list_concat_replicate
      count_list_distinct_nth count_list_distinct_nth_all)

lemma spread_map_at:
  assumes "distinct ps" "i < length ps"
  shows "map_at (spread_map n ps m) (ps ! i) =
           map_at m (ps ! i) + of_nat (100 div n + (if i < 100 mod n then 1 else 0))"
  using assms
  by (simp add: spread_map_def map_at_add_each count_list_distinct_nth count_list_distinct_nth_all)

lemma set_spread_slots: "set (spread_slots n ps) \<subseteq> set ps"
  by (auto simp: spread_slots_def dest: in_set_takeD)

text \<open>C5. SpreadPercentage on a Branch with \<open>N\<close> children (at least one, all
  distinct) and a running total of zero returns normally with a running total of
  exactly 100. The child at position \<open>i\<close> of the insertion order owns
  \<open>100 div N\<close> slots of the table, and one more when \<open>i < 100 mod N\<close>; its entry of
  the percentage map grows by the same amount.\<close>

theorem SpreadPercentage_spreads:
  assumes "m_nodes b \<noteq> []"
    and "length (m_nodes b) < 2 ^ 64"
    and "distinct (map ptr_of (m_nodes b))"
    and "m_lastAllocated b = 0"
    and "length (m_percentageAllocations b) = 100"
  shows "\<exists>b'. SpreadPercentage b = Done () b'
     \<and> m_lastAllocated b' = 100
     \<and> m_nodes b' = m_nodes b
     \<and> length (m_percentageAllocations b') = 100
     \<and> set (m_percentageAllocations b') \<subseteq> set (map ptr_of (m_nodes b))
     \<and> (\<forall>i < length (m_nodes b).
          count_list (m_percentageAllocations b') (ptr_of (m_nodes b ! i))
            = 100 div length (m_nodes b) + (if i < 100 mod length (m_nodes b) then 1 else 0)
        \<and> map_at (m_nodesPercentageMap b') (ptr_of (m_nodes b ! i))
            = map_at (m_nodesPercentageMap b) (ptr_of (m_nodes b ! i))
              + of_nat (100 div length (m_nodes b) + (if i < 100 mod length (m_nodes b) then 1 else 0)))"
proof -
  let ?ps = "map ptr_of (m_nodes b)"
  let ?b' = "Branch (branch_base b) (m_nodes b)
       (spread_map (length (m_nodes b)) ?ps (m_nodesPercentageMap b))
       (spread_slots (length (m_nodes b)) ?ps) 100"
  have spread: "SpreadPercentage b = Done () ?b'"
    using assms by (intro SpreadPercentage_Done)
  have len: "length (spread_slots (length (m_nodes b)) ?ps) = 100"
    using length_spread_slots [of ?ps] assms(1) by simp
  have per: "\<forall>i < length (m_nodes b).
          count_list (spread_slots (length (m_nodes b)) ?ps) (ptr_of (m_nodes b ! i))
            = 100 div length (m_nodes b) + (if i < 100 mod length (m_nodes b) then 1 else 0)
        \<and> map_at (spread_map (length (m_nodes b)) ?ps (m_nodesPercentageMap b)) (ptr_of (m_nodes b ! i))
            = map_at (m_nodesPercentageMap b) (ptr_of (m_nodes b ! i))
              + of_nat (100 div length (m_nodes b) + (if i < 100 mod length (m_nodes b) then 1 else 0))"
  proof (intro allI impI)
    fix i assume i: "i < length (m_nodes b)"
    then have nth: "?ps ! i = ptr_of (m_nodes b ! i)" by simp
    have il: "i < length ?ps" using i by simp
    show "count_list (spread_slots (length (m_nodes b)) ?ps) (ptr_of (m_nodes b ! i))
            = 100 div length (m_nodes b) + (if i < 100 mod length (m_nodes b) then 1 else 0)
        \<and> map_at (spread_map (length (m_nodes b)) ?ps (m_nodesPercentageMap b)) (ptr_of (m_nodes b ! i))
            = map_at (m_nodesPercentageMap b) (ptr_of (m_nodes b ! i))
              + of_nat (100 div length (m_nodes b) + (if i < 100 mod length (m_nodes b) then 1 else 0))"
      using spread_slots_count [OF assms(3) il, of "length (m_nodes b)"]
        spread_map_at [OF assms(3) il, of "length (m_nodes b)" "m_nodesPercentageMap b"]
      unfolding nth by simp
  qed
  show ?thesis
    using spread len per set_spread_slots [of "length (m_nodes b)" ?ps]
    by (intro exI [of _ ?b']) simp
qed

theorem SpreadPercentage_spreads_witness:
  "m_nodes example_root \<noteq> [] \<and> length (m_nodes example_root) < 2 ^ 64
   \<and> distinct (map ptr_of (m_nodes example_root))
   \<and> m_lastAllocated example_root = 0
   \<and> length (m_percentageAllocations example_root) = 100
   \<and> (\<exists>b'. SpreadPercentage example_root = Done () b'
        \<and> m_lastAllocated b' = 100
        \<and> count_list (m_percentageAllocations b') (Some 2) = 34
        \<and> count_list (m_percentageAllocations b') (Some 3) = 33
        \<and> count_list (m_percentageAllocations b') (Some 4) = 33
        \<and> map_at (m_nodesPercentageMap b') (Some 2) = 34
        \<and> map_at (m_nodesPercentageMap b') (Some 3) = 33
        \<and> map_at (m_nodesPercentageMap b') (Some 4) = 33)"
proof -
  have h: "m_nodes example_root \<noteq> []" "length (m_nodes example_root) < 2 ^ 64"
    "distinct (map ptr_of (m_nodes example_root))" "m_lastAllocated example_root = 0"
    "length (m_percentageAllocations example_root) = 100"
    by (simp_all add: example_root_eq ptr_of_def)
  from SpreadPercentage_spreads [OF h] obtain b' where
    b': "SpreadPercentage example_root = Done () b'" "m_lastAllocated b' = 100"
    and per: "\<forall>i < length (m_nodes example_root).
          count_list (m_percentageAllocations b') (ptr_of (m_nodes example_root ! i))
            = 100 div length (m_nodes example_root) + (if i < 100 mod length (m_nodes example_root) then 1 else 0)
        \<and> map_at (m_nodesPercentageMap b') (ptr_of (m_nodes example_root ! i))
            = map_at (m_nodesPercentageMap example_root) (ptr_of (m_nodes example_root ! i))
              + of_nat (100 div length (m_nodes example_root) + (if i < 100 mod length (m_nodes example_root) then 1 else 0))"
    by blast
  from per [rule_format, of 0] per [rule_format, of 1] per [rule_format, of 2]
  have "count_list (m_percentageAllocations b') (Some 2) = 34
        \<and> count_list (m_percentageAllocations b') (Some 3) = 33
        \<and> count_list (m_percentageAllocations b') (Some 4) = 33
        \<and> map_at (m_nodesPercentageMap b') (Some 2) = 34
        \<and> map_at (m_nodesPercentageMap b') (Some 3) = 33
        \<and> map_at (m_nodesPercentageMap b') (Some 4) = 33"
    by (simp add: example_root_eq ptr_of_def map_at_def)
  with h b' show ?thesis by blast
qed

subsection \<open>Lookup by name\<close>

lemma find_append_case:
  "find P (xs @ ys) = (case find P xs of None \<Rightarrow> find P ys | Some x \<Rightarrow> Some x)"
  by (induction xs) auto

lemma GetNodeByName_find:
  fixes node :: "('o, 'r) TreeNode" and nodes :: "('o, 'r) TreeNode list"
  shows "GetNodeByName node name = find (\<lambda>n. GetName (base n) = name) (preorder node)"
    and "GetNodeByName_loop nodes name = find (\<lambda>n. GetName (base n) = name) (preorder_list nodes)"
  by (induction node name and nodes name rule: GetNodeByName_GetNodeByName_loop.induct)
     (auto simp: find_append_case split: option.splits)

lemma preorder_hd: "\<exists>rest. preorder node = node # rest"
  by (cases node rule: preorder.cases) auto

lemma find_distinct_map:
  "distinct (map f xs) \<Longrightarrow> d \<in> set xs \<Longrightarrow> find (\<lambda>n. f n = f d) xs = Some d"
  by (induction xs) (auto simp: image_iff)

lemma find_first:
  "\<forall>n \<in> set before. \<not> P n \<Longrightarrow> P d \<Longrightarrow> find P (before @ d # after) = Some d"
  by (induction before) auto

text \<open>C8. GetNodeByName searches the subtree of the node it is called on in pre-order,
  the node itself first, and returns the first node with the name, or nothing when no
  node of the subtree has it. With its own name a node returns itself; with the name
  of a node of the subtree it returns the first node in pre-order of that name, which
  is that very node when no node before it in pre-order has the same name, as when the
  names of the subtree are distinct.\<close>

theorem GetNodeByName_preorder:
  "GetNodeByName node name = find (\<lambda>n. GetName (base n) = name) (preorder node)
   \<and> GetNodeByName node (GetName (base node)) = Some node
   \<and> (GetNodeByName node name = None \<longleftrightarrow> (\<forall>n \<in> set (preorder node). GetName (base n) \<noteq> name))
   \<and> (d \<in> set (preorder node) \<longrightarrow>
        (\<exists>d'. GetNodeByName node (GetName (base d)) = Some d' \<and> GetName (base d') = GetName (base d)))
   \<and> (preorder node = before @ d # after
        \<and> (\<forall>n \<in> set before. GetName (base n) \<noteq> GetName (base d)) \<longrightarrow>
        GetNodeByName node (GetName (base d)) = Some d)
   \<and> (d \<in> set (preorder node) \<and> distinct (map (\<lambda>n. GetName (base n)) (preorder node)) \<longrightarrow>
        GetNodeByName node (GetName (base d)) = Some d)"
proof -
  have own: "GetNodeByName node (GetName (base node)) = Some node"
    using preorder_hd [of node] by (auto simp: GetNodeByName_find)
  have none: "GetNodeByName node name = None \<longleftrightarrow> (\<forall>n \<in> set (preorder node). GetName (base n) \<noteq> name)"
    by (auto simp: GetNodeByName_find find_None_iff)
  have some: "\<exists>d'. GetNodeByName node (GetName (base d)) = Some d' \<and> GetName (base d') = GetName (base d)"
    if "d \<in> set (preorder node)"
  proof (cases "GetNodeByName node (GetName (base d))")
    case None
    then show ?thesis using that by (auto simp: GetNodeByName_find find_None_iff)
  next
    case (Some d')
    then show ?thesis by (auto simp: GetNodeByName_find find_Some_iff)
  qed
  have first: "GetNodeByName node (GetName (base d)) = Some d"
    if "preorder node = before @ d # after"
      "\<forall>n \<in> set before. GetName (base n) \<noteq> GetName (base d)"
    using find_first [of before "\<lambda>n. GetName (base n) = GetName (base d)" d after] that
    by (simp add: GetNodeByName_find)
  have same: "GetNodeByName node (GetName (base d)) = Some d"
    if "d \<in> set (preorder node)" "distinct (map (\<lambda>n. GetName (base n)) (preorder node))"
    using find_distinct_map [OF that(2,1)] by (simp add: GetNodeByName_find)
  show ?thesis
    using own none some first same by (simp add: GetNodeByName_find(1))
qed

lemma example_tree_eq:
  "example_tree = BranchNode (Branch \<lparr>this = 1, GetName = ''root'', m_parent = None, m_rules = []\<rparr>
     [LeafNode (Leaf \<lparr>this = 2, GetName = ''A'', m_parent = Some 1, m_rules = []\<rparr> 2),
      LeafNode (Leaf \<lparr>this = 3, GetName = ''B'', m_parent = Some 1, m_rules = []\<rparr> 3),
      LeafNode (Leaf \<lparr>this = 4, GetName = ''C'', m_parent = Some 1, m_rules = []\<rparr> 4),
      BranchNode (Branch \<lparr>this = 5, GetName = ''inner'', m_parent = Some 1, m_rules = []\<rparr>
        [LeafNode (Leaf \<lparr>this = 6, GetName = ''D'', m_parent = Some 5, m_rules = []\<rparr> 6)]
        Map.empty (replicate 100 None) 0)]
     Map.empty (replicate 100 None) 0)"
  by (simp add: example_tree_def example_root_eq example_leaf_def AddNode_def Branch_new_def
      Leaf_new_def TreeNode_new_def SetParent_def Branch_ptr_def)

theorem GetNodeByName_preorder_witness:
  "LeafNode (Leaf \<lparr>this = 6, GetName = ''D'', m_parent = Some 5, m_rules = []\<rparr> 6)
      \<in> set (preorder example_tree)
   \<and> preorder example_tree =
       [example_tree,
        LeafNode (Leaf \<lparr>this = 2, GetName = ''A'', m_parent = Some 1, m_rules = []\<rparr> 2),
        LeafNode (Leaf \<lparr>this = 3, GetName = ''B'', m_parent = Some 1, m_rules = []\<rparr> 3),
        LeafNode (Leaf \<lparr>this = 4, GetName = ''C'', m_parent = Some 1, m_rules = []\<rparr> 4),
        BranchNode (Branch \<lparr>this = 5, GetName = ''inner'', m_parent = Some 1, m_rules = []\<rparr>
          [LeafNode (Leaf \<lparr>this = 6, GetName = ''D'', m_parent = Some 5, m_rules = []\<rparr> 6)]
          Map.empty (replicate 100 None) 0)]
       @ LeafNode (Leaf \<lparr>this = 6, GetName = ''D'', m_parent = Some 5, m_rules = []\<rparr> 6) # []
   \<and> distinct (map (\<lambda>n. GetName (base n)) (preorder example_tree))
   \<and> GetNodeByName example_tree ''D''
      = Some (LeafNode (Leaf \<lparr>this = 6, GetName = ''D'', m_parent = Some 5, m_rules = []\<rparr> 6))
   \<and> GetNodeByName example_tree ''root'' = Some example_tree
   \<and> GetNodeByName example_tree ''E'' = None"
  using GetNodeByName_preorder [of example_tree "''E''"
      "LeafNode (Leaf \<lparr>this = 6, GetName = ''D'', m_parent = Some 5, m_rules = []\<rparr> 6)"
      "[example_tree,
        LeafNode (Leaf \<lparr>this = 2, GetName = ''A'', m_parent = Some 1, m_rules = []\<rparr> 2),
        LeafNode (Leaf \<lparr>this = 3, GetName = ''B'', m_parent = Some 1, m_rules = []\<rparr> 3),
        LeafNode (Leaf \<lparr>this = 4, GetName = ''C'', m_parent = Some 1, m_rules = []\<rparr> 4),
        BranchNode (Branch \<lparr>this = 5, GetName = ''inner'', m_parent = Some 1, m_rules = []\<rparr>
          [LeafNode (Leaf \<lparr>this = 6, GetName = ''D'', m_parent = Some 5, m_rules = []\<rparr> 6)]
          Map.empty (replicate 100 None) 0)]" "[]"]
  by (simp add: example_tree_eq)

text \<open>With two Leaves of the same name under the root, the lookup of that name
  returns the first of them, at address 2, and not the second, at address 3.\<close>

theorem GetNodeByName_twins_counterexample:
  "LeafNode (Leaf \<lparr>this = 3, GetName = ''A'', m_parent = Some 1, m_rules = []\<rparr> 3)
      \<in> set (preorder example_twins)
   \<and> GetNodeByName example_twins ''A''
      = Some (LeafNode (Leaf \<lparr>this = 2, GetName = ''A'', m_parent = Some 1, m_rules = []\<rparr> 2))
   \<and> GetNodeByName example_twins
        (GetName (base (LeafNode (Leaf \<lparr>this = 3, GetName = ''A'', m_parent = Some 1, m_rules = []\<rparr> 3)
           :: (unit, nat) TreeNode)))
      \<noteq> Some (LeafNode (Leaf \<lparr>this = 3, GetName = ''A'', m_parent = Some 1, m_rules = []\<rparr> 3))"
  by (simp add: example_twins_def example_leaf_def AddNode_def Branch_new_def
      Leaf_new_def TreeNode_new_def SetParent_def Branch_ptr_def)

subsection \<open>The parent link of a new node\<close>

text \<open>C9. The constructor of TreeNode initialises the name only: \<^verbatim>\<open>m_parent\<close> has no
  initialiser, so GetParent on a node that was never passed to AddNode returns the
  content the storage had, which need not be the null pointer.\<close>

theorem GetParent_new_uninitialised:
  "GetParent (TreeNode_new uninit a name) = uninit
   \<and> GetParent (leaf_base (Leaf_new (Some 7) 2 ''A'' (0 :: nat) :: (unit, nat) Leaf)) \<noteq> None
   \<and> GetParent (branch_base (Branch_new (Some 7) (replicate 100 None) 1 ''root'' :: (unit, nat) Branch)) \<noteq> None"
  by (simp add: GetParent_def TreeNode_new_def Leaf_new_def Branch_new_def)

subsection \<open>Failures of AllocatePercentage\<close>

lemma AllocatePercentage_Thrown_iff:
  "(\<exists>e s. AllocatePercentage percentage node b = Thrown e s) \<longleftrightarrow>
     100 < m_lastAllocated b + percentage \<or> node \<notin> set (map ptr_of (m_nodes b))"
  by (auto simp: AllocatePercentage_def)

lemma budget_guard_no_overflow:
  "unat (m_lastAllocated b) + unat percentage < 2 ^ 64 \<Longrightarrow>
   100 < m_lastAllocated b + percentage \<longleftrightarrow> 100 < unat (m_lastAllocated b) + unat percentage"
  using unat_add_lem [THEN iffD1, of "m_lastAllocated b" percentage]
  by (simp add: word_less_nat_alt)

text \<open>C4. Every failure of AllocatePercentage leaves the Branch as it was
  (\<open>AllocatePercentage_Thrown\<close>), and it fails when the node is no child or the sum,
  computed in \<^verbatim>\<open>size_t\<close>, is above 100 (\<open>AllocatePercentage_Thrown_iff\<close>). The sum wraps
  around: with a running total of 1, a request of \<open>2^64 - 1\<close> percent exceeds the
  budget, yet the call returns normally, sets the running total to 0 and the child's
  recorded percentage to 0.\<close>

theorem AllocatePercentage_budget_wraps:
  "\<exists>b1 b2. AllocatePercentage 1 (Some 2) example_root = Done () b1
     \<and> m_lastAllocated b1 = 1
     \<and> m_nodesPercentageMap b1 (Some 2) = Some 1
     \<and> 100 < unat (m_lastAllocated b1) + unat (18446744073709551615 :: size_t)
     \<and> Some 2 \<in> set (map ptr_of (m_nodes b1))
     \<and> AllocatePercentage 18446744073709551615 (Some 2) b1 = Done () b2
     \<and> m_lastAllocated b2 = 0
     \<and> m_nodesPercentageMap b2 (Some 2) = Some 0"
  by (simp add: AllocatePercentage_def example_root_eq ptr_of_def map_at_def fill_slots.simps)

subsection \<open>The invariant of the allocation state\<close>

lemma length_fill_slots: "length (fill_slots slots i e node) = length slots"
proof (induction slots i e node rule: fill_slots.induct)
  case (1 slots i e node)
  show ?case
  proof (cases "i < e")
    case True
    then show ?thesis using 1 by (subst fill_slots.simps) simp
  next
    case False
    then show ?thesis by (subst fill_slots.simps) simp
  qed
qed

lemma ptr_of_node_SetParent: "ptr_of (node_SetParent p node) = ptr_of node"
  by (cases "(p, node)" rule: node_SetParent.cases) (simp_all add: ptr_of_def SetParent_def)

lemma Branch_new_inv:
  "length uninit_slots = 100 \<Longrightarrow> Branch_inv (Branch_new uninit uninit_slots a name)"
  by (simp add: Branch_inv_def Branch_new_def)

lemma AddNode_inv: "Branch_inv b \<Longrightarrow> Branch_inv (AddNode node b)"
  by (auto simp: Branch_inv_def AddNode_def)

lemma AllocatePercentage_inv:
  assumes inv: "Branch_inv b"
    and res: "AllocatePercentage percentage node b = Done u b'"
  shows "Branch_inv b'"
proof -
  let ?e = "m_lastAllocated b + percentage"
  let ?slots = "m_percentageAllocations b"
  have guard: "?e \<le> 100" and child: "node \<in> set (map ptr_of (m_nodes b))"
    and b': "b' = Branch (branch_base b) (m_nodes b)
          ((m_nodesPercentageMap b)(node \<mapsto> map_at (m_nodesPercentageMap b) node + percentage))
          (fill_slots ?slots (m_lastAllocated b) ?e node) ?e"
    using res by (auto simp: AllocatePercentage_def split: if_splits)
  have ue: "unat ?e \<le> 100" using guard by (simp add: word_le_nat_alt)
  have len: "length ?slots = 100" using inv by (simp add: Branch_inv_def)
  have old: "set (take (unat (m_lastAllocated b)) ?slots) \<subseteq> set (map ptr_of (m_nodes b))"
    using inv by (simp add: Branch_inv_def)
  have "set (take (unat ?e) (fill_slots ?slots (m_lastAllocated b) ?e node))
      \<subseteq> set (map ptr_of (m_nodes b))"
  proof (cases "m_lastAllocated b \<le> ?e")
    case True
    then have le: "unat (m_lastAllocated b) \<le> unat ?e" by (simp add: word_le_nat_alt)
    have "fill_slots ?slots (m_lastAllocated b) ?e node =
        take (unat (m_lastAllocated b)) ?slots
          @ replicate (unat ?e - unat (m_lastAllocated b)) node @ drop (unat ?e) ?slots"
      using True ue len by (intro fill_slots_eq) simp_all
    moreover have "min 100 (unat (m_lastAllocated b)) = unat (m_lastAllocated b)"
      using le ue by simp
    ultimately have "take (unat ?e) (fill_slots ?slots (m_lastAllocated b) ?e node) =
        take (unat (m_lastAllocated b)) ?slots
          @ replicate (unat ?e - unat (m_lastAllocated b)) node"
      using le len by simp
    then show ?thesis using old child by auto
  next
    case False
    then have "\<not> m_lastAllocated b < ?e" and le: "unat ?e \<le> unat (m_lastAllocated b)"
      by (simp_all add: word_le_nat_alt word_less_nat_alt)
    then have "fill_slots ?slots (m_lastAllocated b) ?e node = ?slots"
      by (simp add: fill_slots_empty)
    then show ?thesis
      using old set_take_subset_set_take [OF le, of ?slots] by auto
  qed
  then show ?thesis
    using inv guard child len by (auto simp: b' Branch_inv_def length_fill_slots)
qed

lemma SpreadPercentage_each_inv:
  "Branch_inv b \<Longrightarrow>
   SpreadPercentage_each q xs b = Done u b' \<or> SpreadPercentage_each q xs b = Thrown e b' \<Longrightarrow>
   Branch_inv b'"
proof (induction xs arbitrary: b)
  case Nil
  then show ?case by simp
next
  case (Cons x xs)
  show ?case
  proof (cases "AllocatePercentage q (ptr_of x) b")
    case (Done u1 b1)
    then have "Branch_inv b1" using Cons.prems(1) AllocatePercentage_inv by blast
    then show ?thesis using Cons.IH [of b1] Cons.prems(2) Done by simp
  next
    case (Thrown e1 b1)
    then have "b1 = b" by (rule AllocatePercentage_Thrown)
    then show ?thesis using Cons.prems Thrown by auto
  next
    case Undefined
    then show ?thesis using AllocatePercentage_defined by blast
  qed
qed

lemma SpreadPercentage_inv:
  assumes "Branch_inv b"
    and "SpreadPercentage b = Done u b' \<or> SpreadPercentage b = Thrown e b'"
  shows "Branch_inv b'"
proof (cases "SpreadPercentage_each (100 div nodes_size b) (m_nodes b) b")
  case (Done u1 b1)
  then have b1: "Branch_inv b1" using assms(1) SpreadPercentage_each_inv by blast
  show ?thesis
  proof (cases "m_lastAllocated b1 = 100")
    case True
    then show ?thesis
      using assms(2) Done b1 by (auto simp: SpreadPercentage_def Let_def split: if_splits)
  next
    case False
    then have "SpreadPercentage_each 1 (take (unat (100 - m_lastAllocated b1)) (m_nodes b1)) b1 = Done u b'
       \<or> SpreadPercentage_each 1 (take (unat (100 - m_lastAllocated b1)) (m_nodes b1)) b1 = Thrown e b'"
      using assms(2) Done
      by (auto simp: SpreadPercentage_def Let_def SpreadPercentage_rest_each split: if_splits)
    then show ?thesis using b1 SpreadPercentage_each_inv by blast
  qed
next
  case (Thrown e1 b1)
  then have "Branch_inv b1" using assms(1) SpreadPercentage_each_inv by blast
  then show ?thesis
    using assms(2) Thrown by (auto simp: SpreadPercentage_def Let_def split: if_splits)
next
  case Undefined
  then show ?thesis using SpreadPercentage_each_defined by blast
qed

subsection \<open>Weighted selection\<close>

text \<open>C2. getRandomNode throws exactly when the running total is not 100, and then
  before any draw. With a running total of 100, on a Branch whose allocation state
  satisfies the invariant, it returns after one draw with the pointer of a registered
  child, which is the pointer of the slot drawn.\<close>

theorem getRandomNode_selection:
  "((\<exists>e g'. getRandomNode rand b g = Thrown e g') \<longleftrightarrow> m_lastAllocated b \<noteq> 100)
   \<and> (m_lastAllocated b \<noteq> 100 \<longrightarrow>
        getRandomNode rand b g =
          Thrown (SumPercentNot100 (GetName (branch_base b)) (m_lastAllocated b)) g)
   \<and> (m_lastAllocated b = 100 \<and> Branch_inv b \<longrightarrow>
        (\<exists>child \<in> set (m_nodes b).
           getRandomNode rand b g = Done (ptr_of child) (snd (rand g))
           \<and> ptr_of child = m_percentageAllocations b ! (fst (rand g) mod 100)))"
proof -
  have sel: "\<exists>child \<in> set (m_nodes b).
           getRandomNode rand b g = Done (ptr_of child) (snd (rand g))
           \<and> ptr_of child = m_percentageAllocations b ! (fst (rand g) mod 100)"
    if last: "m_lastAllocated b = 100" and inv: "Branch_inv b"
  proof -
    let ?d = "fst (rand g) mod 100"
    have "?d < 100" by simp
    moreover have len: "length (m_percentageAllocations b) = 100"
      using inv by (simp add: Branch_inv_def)
    moreover have "set (take (unat (m_lastAllocated b)) (m_percentageAllocations b))
        \<subseteq> set (map ptr_of (m_nodes b))"
      using inv unfolding Branch_inv_def by blast
    then have "set (m_percentageAllocations b) \<subseteq> set (map ptr_of (m_nodes b))"
      using len last by simp
    ultimately have "m_percentageAllocations b ! ?d \<in> set (map ptr_of (m_nodes b))"
      by (metis nth_mem subsetD)
    then obtain child where child: "child \<in> set (m_nodes b)"
      "ptr_of child = m_percentageAllocations b ! ?d" by auto
    have "getRandomNode rand b g = Done (m_percentageAllocations b ! ?d) (snd (rand g))"
      using last by (simp add: getRandomNode_def Let_def split: prod.splits)
    then show ?thesis
      using child by (intro bexI [of _ child]) simp_all
  qed
  show ?thesis
    using sel by (auto simp: getRandomNode_def Let_def split: prod.splits)
qed

subsection \<open>The small tree after a uniform spread\<close>

lemma example_root_inv: "Branch_inv example_root"
  unfolding example_root_def
  by (intro AddNode_inv Branch_new_inv) simp

lemma example_spread_eq:
  "SpreadPercentage example_root = Done () example_spread"
  "example_spread = Branch (branch_base example_root) (m_nodes example_root)
      (spread_map 3 [Some 2, Some 3, Some 4] Map.empty)
      (spread_slots 3 [Some 2, Some 3, Some 4]) 100"
proof -
  have "SpreadPercentage example_root = Done () (Branch (branch_base example_root) (m_nodes example_root)
      (spread_map 3 [Some 2, Some 3, Some 4] Map.empty)
      (spread_slots 3 [Some 2, Some 3, Some 4]) 100)"
    using SpreadPercentage_Done [of example_root]
    by (simp add: example_root_eq ptr_of_def numeral_3_eq_3)
  then show "SpreadPercentage example_root = Done () example_spread"
    and "example_spread = Branch (branch_base example_root) (m_nodes example_root)
      (spread_map 3 [Some 2, Some 3, Some 4] Map.empty)
      (spread_slots 3 [Some 2, Some 3, Some 4]) 100"
    by (simp_all add: example_spread_def)
qed

lemma example_spread_inv: "Branch_inv example_spread"
  using SpreadPercentage_inv [OF example_root_inv] example_spread_eq(1) by blast

theorem getRandomNode_selection_witness:
  "m_lastAllocated example_spread = 100 \<and> Branch_inv example_spread
   \<and> getRandomNode count_up example_spread 0 = Done (Some 2) 1
   \<and> getRandomNode count_up example_spread 33 = Done (Some 3) 34
   \<and> getRandomNode count_up example_spread 199 = Done (Some 2) 200
   \<and> m_lastAllocated example_root \<noteq> 100
   \<and> getRandomNode count_up example_root 0 = Thrown (SumPercentNot100 ''root'' 0) 0"
proof -
  have a: "m_lastAllocated example_spread = 100" by (simp add: example_spread_eq(2))
  have b: "m_lastAllocated example_root \<noteq> 100" by (simp add: example_root_eq)
  have s: "spread_slots 3 [Some 2, Some 3, Some 4]
      = replicate 33 (Some 2) @ replicate 33 (Some 3) @ replicate 33 (Some 4) @ [Some 2]"
    by (simp add: spread_slots_def)
  have "getRandomNode count_up example_spread 0 = Done (Some 2) 1
   \<and> getRandomNode count_up example_spread 33 = Done (Some 3) 34
   \<and> getRandomNode count_up example_spread 199 = Done (Some 2) 200"
    by (simp add: getRandomNode_def count_up_def example_spread_eq(2) s nth_append)
  moreover have "getRandomNode count_up example_root 0 = Thrown (SumPercentNot100 ''root'' 0) 0"
    using getRandomNode_selection [of count_up example_root 0] b
    by (simp add: example_root_eq)
  ultimately show ?thesis
    using a b example_spread_inv getRandomNode_selection [of count_up example_spread 0] by simp
qed

subsection \<open>Routing\<close>







subsection \<open>Spreading over the unset Branches\<close>

lemma SpreadPercentage_is_Done:
  "m_nodes b \<noteq> [] \<Longrightarrow> length (m_nodes b) < 2 ^ 64 \<Longrightarrow> m_lastAllocated b = 0 \<Longrightarrow>
   length (m_percentageAllocations b) = 100 \<Longrightarrow> is_Done (SpreadPercentage b)"
  by (simp add: SpreadPercentage_Done)

lemma SpreadPercentageOnAllNotSetNodes_spec:
  fixes b :: "('o, 'r) Branch" and nodes :: "('o, 'r) TreeNode list"
  shows "all_branches spreadable b \<Longrightarrow>
           SpreadPercentageOnAllNotSetNodes b = Done () (spread_unset b)"
    and "all_branches_in spreadable nodes \<Longrightarrow>
           SpreadPercentageOnAllNotSetNodes_loop nodes = Done () (spread_unset_in nodes)"
proof (induction b and nodes rule: spread_unset_spread_unset_in.induct)
  case (1 members nodes m slots l)
  let ?B = "Branch members nodes m slots l"
  have loop: "SpreadPercentageOnAllNotSetNodes_loop nodes = Done () (spread_unset_in nodes)"
    using 1 by simp
  show ?case
  proof (cases "l = 0")
    case True
    then have "is_Done (SpreadPercentage ?B)" using "1.prems" by (simp add: spreadable_def)
    then obtain u b1 where b1: "SpreadPercentage ?B = Done u b1"
      by (cases "SpreadPercentage ?B") auto
    then show ?thesis using True loop by simp
  next
    case False
    then show ?thesis using loop by simp
  qed
next
  case 2
  then show ?case by simp
next
  case (3 lf rest)
  then show ?case by simp
next
  case (4 b rest)
  then show ?case by simp
qed

text \<open>C6. On a subtree in which SpreadPercentage returns normally for every Branch with
  a running total of zero, SpreadPercentageOnAllNotSetNodes returns normally and
  leaves the tree \<open>spread_unset\<close> describes: a Branch with a running total of zero, the
  one called on or a descendant at any depth, has the allocation state SpreadPercentage
  gives it, and a Branch with any other running total keeps its percentage map, its
  slot table and its running total.\<close>

theorem SpreadPercentageOnAllNotSetNodes_unset_only:
  assumes "all_branches spreadable b"
  shows "SpreadPercentageOnAllNotSetNodes b = Done () (spread_unset b)
    \<and> (m_lastAllocated b = 0 \<longrightarrow>
         (\<exists>b1. SpreadPercentage b = Done () b1
            \<and> m_nodesPercentageMap (spread_unset b) = m_nodesPercentageMap b1
            \<and> m_percentageAllocations (spread_unset b) = m_percentageAllocations b1
            \<and> m_lastAllocated (spread_unset b) = m_lastAllocated b1))
    \<and> (m_lastAllocated b \<noteq> 0 \<longrightarrow>
         m_nodesPercentageMap (spread_unset b) = m_nodesPercentageMap b
         \<and> m_percentageAllocations (spread_unset b) = m_percentageAllocations b
         \<and> m_lastAllocated (spread_unset b) = m_lastAllocated b)
    \<and> m_nodes (spread_unset b) = spread_unset_in (m_nodes b)"
proof -
  have fields: "m_nodes (spread_unset b) = spread_unset_in (m_nodes b)"
    "m_lastAllocated b \<noteq> 0 \<Longrightarrow>
       m_nodesPercentageMap (spread_unset b) = m_nodesPercentageMap b
       \<and> m_percentageAllocations (spread_unset b) = m_percentageAllocations b
       \<and> m_lastAllocated (spread_unset b) = m_lastAllocated b"
    "m_lastAllocated b = 0 \<Longrightarrow>
       m_nodesPercentageMap (spread_unset b) = m_nodesPercentageMap (final (SpreadPercentage b))
       \<and> m_percentageAllocations (spread_unset b) = m_percentageAllocations (final (SpreadPercentage b))
       \<and> m_lastAllocated (spread_unset b) = m_lastAllocated (final (SpreadPercentage b))"
    by (cases b; simp add: Let_def)+
  have own: "\<exists>b1. SpreadPercentage b = Done () b1 \<and> final (SpreadPercentage b) = b1"
    if "m_lastAllocated b = 0"
  proof -
    have "spreadable b" using assms by (cases b) simp
    then have "is_Done (SpreadPercentage b)" using that by (simp add: spreadable_def)
    then show ?thesis by (cases "SpreadPercentage b") auto
  qed
  have zero: "\<exists>b1. SpreadPercentage b = Done () b1
            \<and> m_nodesPercentageMap (spread_unset b) = m_nodesPercentageMap b1
            \<and> m_percentageAllocations (spread_unset b) = m_percentageAllocations b1
            \<and> m_lastAllocated (spread_unset b) = m_lastAllocated b1"
    if "m_lastAllocated b = 0"
    using own [OF that] fields(3) [OF that] by auto
  show ?thesis
    using SpreadPercentageOnAllNotSetNodes_spec(1) [OF assms] fields(1,2) zero by blast
qed

lemma example_partial_eq:
  "example_partial = Branch \<lparr>this = 1, GetName = ''root'', m_parent = None, m_rules = []\<rparr>
     [LeafNode (Leaf \<lparr>this = 2, GetName = ''A'', m_parent = Some 1, m_rules = []\<rparr> 2),
      LeafNode (Leaf \<lparr>this = 3, GetName = ''B'', m_parent = Some 1, m_rules = []\<rparr> 3),
      LeafNode (Leaf \<lparr>this = 4, GetName = ''C'', m_parent = Some 1, m_rules = []\<rparr> 4),
      BranchNode (Branch \<lparr>this = 5, GetName = ''inner'', m_parent = Some 1, m_rules = []\<rparr>
        [LeafNode (Leaf \<lparr>this = 6, GetName = ''D'', m_parent = Some 5, m_rules = []\<rparr> 6)]
        Map.empty (replicate 100 None) 0)]
     [Some 2 \<mapsto> 40] (replicate 40 (Some 2) @ replicate 60 None) 40"
proof -
  let ?b = "AddNode (BranchNode (AddNode (example_leaf 6 ''D'')
         (Branch_new None (replicate 100 None) 5 ''inner''))) example_root"
  have b: "?b = Branch \<lparr>this = 1, GetName = ''root'', m_parent = None, m_rules = []\<rparr>
     [LeafNode (Leaf \<lparr>this = 2, GetName = ''A'', m_parent = Some 1, m_rules = []\<rparr> 2),
      LeafNode (Leaf \<lparr>this = 3, GetName = ''B'', m_parent = Some 1, m_rules = []\<rparr> 3),
      LeafNode (Leaf \<lparr>this = 4, GetName = ''C'', m_parent = Some 1, m_rules = []\<rparr> 4),
      BranchNode (Branch \<lparr>this = 5, GetName = ''inner'', m_parent = Some 1, m_rules = []\<rparr>
        [LeafNode (Leaf \<lparr>this = 6, GetName = ''D'', m_parent = Some 5, m_rules = []\<rparr> 6)]
        Map.empty (replicate 100 None) 0)]
     Map.empty (replicate 100 None) 0"
    by (simp add: example_root_eq example_leaf_def AddNode_def Branch_new_def
      Leaf_new_def TreeNode_new_def SetParent_def Branch_ptr_def)
  have "AllocatePercentage 40 (Some 2) ?b =
     Done () (Branch (branch_base ?b) (m_nodes ?b)
       ((m_nodesPercentageMap ?b)(Some 2 \<mapsto> map_at (m_nodesPercentageMap ?b) (Some 2) + 40))
       (overwrite 0 (replicate (unat (40 :: size_t)) (Some 2)) (m_percentageAllocations ?b))
       (of_nat (0 + unat (40 :: size_t))))"
    by (rule AllocatePercentage_Done) (simp_all add: b ptr_of_def)
  then show ?thesis
    by (simp add: example_partial_def) (simp add: b overwrite_def map_at_def)
qed

theorem SpreadPercentageOnAllNotSetNodes_unset_only_witness:
  "all_branches spreadable example_partial
   \<and> SpreadPercentageOnAllNotSetNodes example_partial =
     Done () (Branch \<lparr>this = 1, GetName = ''root'', m_parent = None, m_rules = []\<rparr>
     [LeafNode (Leaf \<lparr>this = 2, GetName = ''A'', m_parent = Some 1, m_rules = []\<rparr> 2),
      LeafNode (Leaf \<lparr>this = 3, GetName = ''B'', m_parent = Some 1, m_rules = []\<rparr> 3),
      LeafNode (Leaf \<lparr>this = 4, GetName = ''C'', m_parent = Some 1, m_rules = []\<rparr> 4),
      BranchNode (Branch \<lparr>this = 5, GetName = ''inner'', m_parent = Some 1, m_rules = []\<rparr>
        [LeafNode (Leaf \<lparr>this = 6, GetName = ''D'', m_parent = Some 5, m_rules = []\<rparr> 6)]
        [Some 6 \<mapsto> 100] (replicate 100 (Some 6)) 100)]
     [Some 2 \<mapsto> 40] (replicate 40 (Some 2) @ replicate 60 None) 40)"
proof -
  let ?inner = "Branch \<lparr>this = 5, GetName = ''inner'', m_parent = Some 1, m_rules = []\<rparr>
        [LeafNode (Leaf \<lparr>this = 6, GetName = ''D'', m_parent = Some 5, m_rules = []\<rparr> 6 :: (unit, nat) Leaf)]
        Map.empty (replicate 100 None) 0"
  have "SpreadPercentage ?inner = Done () (Branch (branch_base ?inner) (m_nodes ?inner)
       (spread_map (length (m_nodes ?inner)) (map ptr_of (m_nodes ?inner)) (m_nodesPercentageMap ?inner))
       (spread_slots (length (m_nodes ?inner)) (map ptr_of (m_nodes ?inner))) 100)"
    by (rule SpreadPercentage_Done) simp_all
  then have inner: "SpreadPercentage ?inner = Done () (Branch \<lparr>this = 5, GetName = ''inner'', m_parent = Some 1, m_rules = []\<rparr>
        [LeafNode (Leaf \<lparr>this = 6, GetName = ''D'', m_parent = Some 5, m_rules = []\<rparr> 6)]
        [Some 6 \<mapsto> 100] (replicate 100 (Some 6)) 100)"
    by (simp add: spread_map_def spread_slots_def add_each_def map_at_def ptr_of_def)
  have pre: "all_branches spreadable example_partial"
    using inner by (simp add: example_partial_eq spreadable_def)
  show ?thesis
    using SpreadPercentageOnAllNotSetNodes_unset_only [OF pre] pre inner
    by (simp add: example_partial_eq)
qed

subsection \<open>Reset and spread\<close>

lemma ResetAllocations_loop_eq:
  "ResetAllocations_loop nodes m =
     (reset_in nodes, fold (\<lambda>k m. m(k \<mapsto> 0)) (map ptr_of nodes) m)"
  by (induction nodes arbitrary: m rule: reset_in.induct) simp_all

lemma ResetAllocations_eq:
  "ResetAllocations (Branch members nodes m slots l) =
     Branch members (reset_in nodes) (fold (\<lambda>k m. m(k \<mapsto> 0)) (map ptr_of nodes) m)
       (map (\<lambda>allocation. None) slots) 0"
  by (simp add: ResetAllocations_loop_eq)

lemma branch_base_ResetAllocations: "branch_base (ResetAllocations b) = branch_base b"
  by (cases b) (simp add: ResetAllocations_loop_eq)

lemma branch_base_fresh: "branch_base (fresh uninit b) = branch_base b"
  by (cases b) simp

lemma ptr_of_reset_in: "map ptr_of (reset_in nodes) = map ptr_of nodes"
  by (induction nodes rule: reset_in.induct)
     (simp_all add: ptr_of_def branch_base_ResetAllocations)

lemma ptr_of_fresh_in: "map ptr_of (fresh_in uninit nodes) = map ptr_of nodes"
  by (induction nodes rule: reset_in.induct)
     (simp_all add: ptr_of_def branch_base_fresh)

lemma length_reset_in: "length (reset_in nodes) = length nodes"
  using arg_cong [OF ptr_of_reset_in, of length nodes] by simp

lemma length_fresh_in: "length (fresh_in uninit nodes) = length nodes"
  using arg_cong [OF ptr_of_fresh_in, of length uninit nodes] by simp

lemma fold_zero_apply:
  "fold (\<lambda>k m. m(k \<mapsto> 0 :: size_t)) ks m k = (if k \<in> set ks then Some 0 else m k)"
  by (induction ks arbitrary: m) auto

lemma spread_map_cong:
  assumes "\<And>k. k \<in> set ps \<Longrightarrow> map_at m1 k = map_at m2 k"
    and "\<And>k. k \<notin> set ps \<Longrightarrow> m1 k = m2 k"
  shows "spread_map n ps m1 = spread_map n ps m2"
proof
  fix k
  have first: "add_each (of_nat (100 div n)) ps m1 k = add_each (of_nat (100 div n)) ps m2 k"
    using assms by (simp add: add_each_apply)
  then have at: "map_at (add_each (of_nat (100 div n)) ps m1) k
      = map_at (add_each (of_nat (100 div n)) ps m2) k"
    by (simp add: map_at_def)
  show "spread_map n ps m1 k = spread_map n ps m2 k"
    unfolding spread_map_def add_each_apply [of 1] using first at by simp
qed

lemma spread_map_reset:
  assumes "dom m \<subseteq> set ps"
  shows "spread_map n ps (fold (\<lambda>k m. m(k \<mapsto> 0)) ps m) = spread_map n ps Map.empty"
proof (rule spread_map_cong)
  fix k assume "k \<in> set ps"
  then show "map_at (fold (\<lambda>k m. m(k \<mapsto> 0)) ps m) k = map_at Map.empty k"
    by (simp add: map_at_def fold_zero_apply)
next
  fix k assume "k \<notin> set ps"
  then have "m k = None" using assms by auto
  then show "fold (\<lambda>k m. m(k \<mapsto> 0)) ps m k = Map.empty k"
    using \<open>k \<notin> set ps\<close> by (simp add: fold_zero_apply)
qed

lemma SpreadPercentage_no_children:
  "SpreadPercentage (Branch members [] m slots l) = Undefined"
  by (simp add: SpreadPercentage_def nodes_size_def)

lemma reset_fresh_spread:
  fixes b :: "('o, 'r) Branch" and nodes :: "('o, 'r) TreeNode list"
  shows "\<forall>a. length (uninit a) = 100 \<Longrightarrow> all_branches well_formed b \<Longrightarrow>
      SpreadPercentageOnAllNotSetNodes (ResetAllocations b)
        = SpreadPercentageOnAllNotSetNodes (fresh uninit b)
      \<and> (\<forall>e s. SpreadPercentageOnAllNotSetNodes (ResetAllocations b) \<noteq> Thrown e s)
      \<and> (all_branches has_children b \<longrightarrow>
           SpreadPercentageOnAllNotSetNodes (ResetAllocations b) \<noteq> Undefined)"
    and "\<forall>a. length (uninit a) = 100 \<Longrightarrow> all_branches_in well_formed nodes \<Longrightarrow>
      SpreadPercentageOnAllNotSetNodes_loop (reset_in nodes)
        = SpreadPercentageOnAllNotSetNodes_loop (fresh_in uninit nodes)
      \<and> (\<forall>e s. SpreadPercentageOnAllNotSetNodes_loop (reset_in nodes) \<noteq> Thrown e s)
      \<and> (all_branches_in has_children nodes \<longrightarrow>
           SpreadPercentageOnAllNotSetNodes_loop (reset_in nodes) \<noteq> Undefined)"
proof (induction uninit b and uninit nodes rule: fresh_fresh_in.induct)
  case (1 uninit members nodes m slots l)
  let ?ps = "map ptr_of nodes"
  let ?mR = "fold (\<lambda>k m. m(k \<mapsto> 0)) ?ps m"
  let ?BR = "Branch members (reset_in nodes) ?mR (map (\<lambda>allocation. None) slots) 0"
  let ?BF = "Branch members (fresh_in uninit nodes) Map.empty (uninit (this members)) 0"
  have wf: "well_formed (Branch members nodes m slots l)" and sub: "all_branches_in well_formed nodes"
    using "1.prems" by simp_all
  have len: "length slots = 100" and sz: "length nodes < 2 ^ 64" and dom: "dom m \<subseteq> set ?ps"
    using wf by (simp_all add: well_formed_def Branch_inv_def)
  note IH = "1.IH" [OF "1.prems"(1) sub]
  show ?case
  proof (cases "nodes = []")
    case True
    then show ?thesis
      by (simp add: ResetAllocations_loop_eq SpreadPercentage_no_children has_children_def)
  next
    case False
    have neR: "reset_in nodes \<noteq> []" and neF: "fresh_in uninit nodes \<noteq> []"
      using False length_reset_in [of nodes] length_fresh_in [of uninit nodes]
      by (metis length_0_conv)+
    have R: "SpreadPercentage ?BR = Done () (Branch members (reset_in nodes)
        (spread_map (length nodes) ?ps Map.empty) (spread_slots (length nodes) ?ps) 100)"
      using SpreadPercentage_Done [of ?BR] neR sz len
      by (simp add: length_reset_in ptr_of_reset_in spread_map_reset [OF dom])
    have F: "SpreadPercentage ?BF = Done () (Branch members (fresh_in uninit nodes)
        (spread_map (length nodes) ?ps Map.empty) (spread_slots (length nodes) ?ps) 100)"
      using SpreadPercentage_Done [of ?BF] neF sz "1.prems"(1)
      by (simp add: length_fresh_in ptr_of_fresh_in)
    show ?thesis
      using IH R F
      by (cases "SpreadPercentageOnAllNotSetNodes_loop (fresh_in uninit nodes)")
         (auto simp: ResetAllocations_loop_eq)
  qed
next
  case (2 uninit)
  then show ?case by simp
next
  case (3 uninit lf rest)
  then show ?case
    by (cases "SpreadPercentageOnAllNotSetNodes_loop (fresh_in uninit rest)") auto
next
  case (4 uninit b rest)
  then have b: "all_branches well_formed b" and rest: "all_branches_in well_formed rest"
    by simp_all
  note IHb = "4.IH"(1) [OF "4.prems"(1) b]
  note IHr = "4.IH"(2) [OF "4.prems"(1) rest]
  show ?case
    using IHb IHr
    by (cases "SpreadPercentageOnAllNotSetNodes (fresh uninit b)";
        cases "SpreadPercentageOnAllNotSetNodes_loop (fresh_in uninit rest)") auto
qed

lemma ResetAllocations_inv: "Branch_inv b \<Longrightarrow> Branch_inv (ResetAllocations b)"
proof -
  assume inv: "Branch_inv b"
  obtain members nodes m slots l where b: "b = Branch members nodes m slots l" by (cases b)
  have "dom (fold (\<lambda>k m. m(k \<mapsto> 0)) (map ptr_of nodes) m) \<subseteq> set (map ptr_of nodes)"
    using inv by (auto simp: b Branch_inv_def fold_zero_apply dom_def split: if_splits)
  then show ?thesis
    using inv by (simp add: b ResetAllocations_loop_eq Branch_inv_def ptr_of_reset_in)
qed

lemma branch_base_uniform: "branch_base (uniform b) = branch_base b"
  by (cases b) simp

lemma ptr_of_uniform_in: "map ptr_of (uniform_in nodes) = map ptr_of nodes"
  by (induction nodes rule: reset_in.induct)
     (simp_all add: ptr_of_def branch_base_uniform)

lemma length_uniform_in: "length (uniform_in nodes) = length nodes"
  using arg_cong [OF ptr_of_uniform_in, of length nodes] by simp

lemma uniform_uniformly_spread:
  fixes b :: "('o, 'r) Branch" and nodes :: "('o, 'r) TreeNode list"
  shows "all_branches uniformly_spread (uniform b)"
    and "all_branches_in uniformly_spread (uniform_in nodes)"
  by (induction b and nodes rule: uniform_uniform_in.induct)
     (simp_all add: uniformly_spread_def ptr_of_uniform_in length_uniform_in)

lemma reset_spread_uniform:
  fixes b :: "('o, 'r) Branch" and nodes :: "('o, 'r) TreeNode list"
  shows "all_branches well_formed b \<Longrightarrow> all_branches has_children b \<Longrightarrow>
      SpreadPercentageOnAllNotSetNodes (ResetAllocations b) = Done () (uniform b)"
    and "all_branches_in well_formed nodes \<Longrightarrow> all_branches_in has_children nodes \<Longrightarrow>
      SpreadPercentageOnAllNotSetNodes_loop (reset_in nodes) = Done () (uniform_in nodes)"
proof (induction b and nodes rule: uniform_uniform_in.induct)
  case (1 members nodes m slots l)
  let ?ps = "map ptr_of nodes"
  let ?mR = "fold (\<lambda>k m. m(k \<mapsto> 0)) ?ps m"
  let ?BR = "Branch members (reset_in nodes) ?mR (map (\<lambda>allocation. None) slots) 0"
  have wf: "well_formed (Branch members nodes m slots l)" and sub: "all_branches_in well_formed nodes"
    using "1.prems" by simp_all
  have ch: "all_branches_in has_children nodes" and "has_children (Branch members nodes m slots l)"
    using "1.prems" by simp_all
  then have ne: "nodes \<noteq> []" by (simp add: has_children_def)
  have len: "length slots = 100" and sz: "length nodes < 2 ^ 64" and dom: "dom m \<subseteq> set ?ps"
    using wf by (simp_all add: well_formed_def Branch_inv_def)
  have neR: "reset_in nodes \<noteq> []"
    using ne length_reset_in [of nodes] by (metis length_0_conv)
  have R: "SpreadPercentage ?BR = Done () (Branch members (reset_in nodes)
      (spread_map (length nodes) ?ps Map.empty) (spread_slots (length nodes) ?ps) 100)"
    using SpreadPercentage_Done [of ?BR] neR sz len
    by (simp add: length_reset_in ptr_of_reset_in spread_map_reset [OF dom])
  have loop: "SpreadPercentageOnAllNotSetNodes_loop (reset_in nodes) = Done () (uniform_in nodes)"
    using "1.IH" [OF sub ch] .
  show ?case
    using R loop by (simp add: ResetAllocations_loop_eq)
next
  case 2
  then show ?case by simp
next
  case (3 lf rest)
  then show ?case by simp
next
  case (4 b rest)
  then show ?case by simp
qed

lemma example_uniform_eq:
  "uniform example_partial =
     Branch \<lparr>this = 1, GetName = ''root'', m_parent = None, m_rules = []\<rparr>
     [LeafNode (Leaf \<lparr>this = 2, GetName = ''A'', m_parent = Some 1, m_rules = []\<rparr> 2),
      LeafNode (Leaf \<lparr>this = 3, GetName = ''B'', m_parent = Some 1, m_rules = []\<rparr> 3),
      LeafNode (Leaf \<lparr>this = 4, GetName = ''C'', m_parent = Some 1, m_rules = []\<rparr> 4),
      BranchNode (Branch \<lparr>this = 5, GetName = ''inner'', m_parent = Some 1, m_rules = []\<rparr>
        [LeafNode (Leaf \<lparr>this = 6, GetName = ''D'', m_parent = Some 5, m_rules = []\<rparr> 6)]
        [Some 6 \<mapsto> 100] (replicate 100 (Some 6)) 100)]
     [Some 2 \<mapsto> 25, Some 3 \<mapsto> 25, Some 4 \<mapsto> 25, Some 5 \<mapsto> 25]
     (replicate 25 (Some 2) @ replicate 25 (Some 3) @ replicate 25 (Some 4)
        @ replicate 25 (Some 5)) 100"
  by (simp add: example_partial_eq spread_slots_def spread_map_def add_each_def map_at_def
      ptr_of_def)

text \<open>C7. On a tree whose Branches satisfy the invariant of the allocation state,
  ResetAllocations followed by SpreadPercentageOnAllNotSetNodes ends as
  SpreadPercentageOnAllNotSetNodes ends on the freshly built tree with the same nodes,
  whatever the fresh slot tables held. When every Branch has a child, both calls return,
  and both return the uniformly spread tree: at every Branch of the subtree the running
  total is 100 and the slot table and the percentage map are those of a uniform spread
  over its children, so that a child at position \<open>i\<close> among \<open>N\<close> distinct children
  owns \<open>100 div N\<close> slots, one more when \<open>i < 100 mod N\<close>, and has that
  percentage recorded.\<close>

theorem ResetAllocations_spread_as_fresh:
  assumes "all_branches well_formed b"
    and "\<forall>a. length (uninit a) = 100"
  shows "SpreadPercentageOnAllNotSetNodes (ResetAllocations b)
        = SpreadPercentageOnAllNotSetNodes (fresh uninit b)
    \<and> (all_branches has_children b \<longrightarrow>
          is_Done (SpreadPercentageOnAllNotSetNodes (ResetAllocations b))
        \<and> SpreadPercentageOnAllNotSetNodes (ResetAllocations b) = Done () (uniform b)
        \<and> SpreadPercentageOnAllNotSetNodes (fresh uninit b) = Done () (uniform b)
        \<and> all_branches uniformly_spread (uniform b)
        \<and> m_lastAllocated (uniform b) = 100
        \<and> (distinct (map ptr_of (m_nodes b)) \<longrightarrow>
            (\<forall>i < length (m_nodes b).
               count_list (m_percentageAllocations (uniform b)) (ptr_of (m_nodes b ! i))
                 = 100 div length (m_nodes b) + (if i < 100 mod length (m_nodes b) then 1 else 0)
             \<and> map_at (m_nodesPercentageMap (uniform b)) (ptr_of (m_nodes b ! i))
                 = of_nat (100 div length (m_nodes b)
                     + (if i < 100 mod length (m_nodes b) then 1 else 0)))))"
proof -
  from reset_fresh_spread(1) [OF assms(2,1)]
  have eq: "SpreadPercentageOnAllNotSetNodes (ResetAllocations b)
        = SpreadPercentageOnAllNotSetNodes (fresh uninit b)"
    by blast
  obtain members nodes m slots l where b: "b = Branch members nodes m slots l" by (cases b)
  have per: "count_list (m_percentageAllocations (uniform b)) (ptr_of (m_nodes b ! i))
                 = 100 div length (m_nodes b) + (if i < 100 mod length (m_nodes b) then 1 else 0)
             \<and> map_at (m_nodesPercentageMap (uniform b)) (ptr_of (m_nodes b ! i))
                 = of_nat (100 div length (m_nodes b)
                     + (if i < 100 mod length (m_nodes b) then 1 else 0))"
    if d: "distinct (map ptr_of (m_nodes b))" and i: "i < length (m_nodes b)" for i
  proof -
    have il: "i < length (map ptr_of nodes)" and nth: "map ptr_of nodes ! i = ptr_of (nodes ! i)"
      using i by (simp_all add: b)
    have dn: "distinct (map ptr_of nodes)" using d by (simp add: b)
    show ?thesis
      using spread_slots_count [OF dn il, of "length nodes"]
        spread_map_at [OF dn il, of "length nodes" Map.empty]
      unfolding nth by (simp add: b map_at_def)
  qed
  have last: "m_lastAllocated (uniform b) = 100" by (simp add: b)
  have uni: "SpreadPercentageOnAllNotSetNodes (ResetAllocations b) = Done () (uniform b)"
    if "all_branches has_children b"
    using reset_spread_uniform(1) [OF assms(1) that] .
  show ?thesis
    using eq uni per last uniform_uniformly_spread(1) [of b] by auto
qed

theorem ResetAllocations_spread_as_fresh_witness:
  "all_branches well_formed example_partial
   \<and> (\<forall>a. length (replicate 100 (Some a)) = 100)
   \<and> all_branches has_children example_partial
   \<and> distinct (map ptr_of (m_nodes example_partial))
   \<and> m_lastAllocated example_partial = 40
   \<and> SpreadPercentageOnAllNotSetNodes (ResetAllocations example_partial)
        = SpreadPercentageOnAllNotSetNodes (fresh (\<lambda>a. replicate 100 (Some a)) example_partial)
   \<and> SpreadPercentageOnAllNotSetNodes (ResetAllocations example_partial) =
       Done () (Branch \<lparr>this = 1, GetName = ''root'', m_parent = None, m_rules = []\<rparr>
         [LeafNode (Leaf \<lparr>this = 2, GetName = ''A'', m_parent = Some 1, m_rules = []\<rparr> 2),
          LeafNode (Leaf \<lparr>this = 3, GetName = ''B'', m_parent = Some 1, m_rules = []\<rparr> 3),
          LeafNode (Leaf \<lparr>this = 4, GetName = ''C'', m_parent = Some 1, m_rules = []\<rparr> 4),
          BranchNode (Branch \<lparr>this = 5, GetName = ''inner'', m_parent = Some 1, m_rules = []\<rparr>
            [LeafNode (Leaf \<lparr>this = 6, GetName = ''D'', m_parent = Some 5, m_rules = []\<rparr> 6)]
            [Some 6 \<mapsto> 100] (replicate 100 (Some 6)) 100)]
         [Some 2 \<mapsto> 25, Some 3 \<mapsto> 25, Some 4 \<mapsto> 25, Some 5 \<mapsto> 25]
         (replicate 25 (Some 2) @ replicate 25 (Some 3) @ replicate 25 (Some 4)
            @ replicate 25 (Some 5)) 100)
   \<and> SpreadPercentageOnAllNotSetNodes (fresh (\<lambda>a. replicate 100 (Some a)) example_partial) =
       Done () (Branch \<lparr>this = 1, GetName = ''root'', m_parent = None, m_rules = []\<rparr>
         [LeafNode (Leaf \<lparr>this = 2, GetName = ''A'', m_parent = Some 1, m_rules = []\<rparr> 2),
          LeafNode (Leaf \<lparr>this = 3, GetName = ''B'', m_parent = Some 1, m_rules = []\<rparr> 3),
          LeafNode (Leaf \<lparr>this = 4, GetName = ''C'', m_parent = Some 1, m_rules = []\<rparr> 4),
          BranchNode (Branch \<lparr>this = 5, GetName = ''inner'', m_parent = Some 1, m_rules = []\<rparr>
            [LeafNode (Leaf \<lparr>this = 6, GetName = ''D'', m_parent = Some 5, m_rules = []\<rparr> 6)]
            [Some 6 \<mapsto> 100] (replicate 100 (Some 6)) 100)]
         [Some 2 \<mapsto> 25, Some 3 \<mapsto> 25, Some 4 \<mapsto> 25, Some 5 \<mapsto> 25]
         (replicate 25 (Some 2) @ replicate 25 (Some 3) @ replicate 25 (Some 4)
            @ replicate 25 (Some 5)) 100)
   \<and> count_list (m_percentageAllocations (uniform example_partial)) (Some 2) = 25
   \<and> map_at (m_nodesPercentageMap (uniform example_partial)) (Some 5) = 25"
proof -
  have wf: "all_branches well_formed example_partial"
    by (simp add: example_partial_eq well_formed_def Branch_inv_def ptr_of_def)
  have ch: "all_branches has_children example_partial"
    by (simp add: example_partial_eq has_children_def)
  have d: "distinct (map ptr_of (m_nodes example_partial))"
    by (simp add: example_partial_eq ptr_of_def)
  have u: "\<forall>a. length (replicate 100 (Some a)) = 100" by simp
  have l: "m_lastAllocated example_partial = 40" by (simp add: example_partial_eq)
  note inst = ResetAllocations_spread_as_fresh [OF wf u]
  have eq: "SpreadPercentageOnAllNotSetNodes (ResetAllocations example_partial)
        = SpreadPercentageOnAllNotSetNodes (fresh (\<lambda>a. replicate 100 (Some a)) example_partial)"
    and r: "SpreadPercentageOnAllNotSetNodes (ResetAllocations example_partial)
        = Done () (uniform example_partial)"
    and f: "SpreadPercentageOnAllNotSetNodes (fresh (\<lambda>a. replicate 100 (Some a)) example_partial)
        = Done () (uniform example_partial)"
    and per: "\<forall>i < length (m_nodes example_partial).
               count_list (m_percentageAllocations (uniform example_partial))
                   (ptr_of (m_nodes example_partial ! i))
                 = 100 div length (m_nodes example_partial)
                     + (if i < 100 mod length (m_nodes example_partial) then 1 else 0)
             \<and> map_at (m_nodesPercentageMap (uniform example_partial))
                   (ptr_of (m_nodes example_partial ! i))
                 = of_nat (100 div length (m_nodes example_partial)
                     + (if i < 100 mod length (m_nodes example_partial) then 1 else 0))"
    using inst ch d by blast+
  have c: "count_list (m_percentageAllocations (uniform example_partial)) (Some 2) = 25"
    using per [rule_format, of 0] by (simp add: example_partial_eq ptr_of_def)
  have m: "map_at (m_nodesPercentageMap (uniform example_partial)) (Some 5) = 25"
    using per [rule_format, of 3] by (simp add: example_partial_eq ptr_of_def)
  show ?thesis
    using wf u ch d l eq r f c m unfolding example_uniform_eq by blast
qed

subsection \<open>The invariant holds in every state the operations produce\<close>

lemma Branch_inv_children:
  "Branch_inv b \<Longrightarrow> map ptr_of nodes = map ptr_of (m_nodes b) \<Longrightarrow>
   Branch_inv (Branch members nodes (m_nodesPercentageMap b)
     (m_percentageAllocations b) (m_lastAllocated b))"
  by (simp add: Branch_inv_def)

lemma SpreadPercentage_base:
  "SpreadPercentage b = Done u b' \<or> SpreadPercentage b = Thrown e b' \<Longrightarrow>
   m_nodes b' = m_nodes b \<and> branch_base b' = branch_base b"
proof -
  have each: "SpreadPercentage_each q xs c = Done u c' \<or> SpreadPercentage_each q xs c = Thrown e c' \<Longrightarrow>
      m_nodes c' = m_nodes c \<and> branch_base c' = branch_base c" for q xs u e and c c' :: "('a, 'b) Branch"
  proof (induction xs arbitrary: c)
    case Nil
    then show ?case by simp
  next
    case (Cons x xs)
    show ?case
    proof (cases "AllocatePercentage q (ptr_of x) c")
      case (Done u1 c1)
      then show ?thesis
        using Cons.IH [of c1] Cons.prems AllocatePercentage_m_nodes [OF Done] by simp
    next
      case (Thrown e1 c1)
      then show ?thesis using Cons.prems AllocatePercentage_Thrown [OF Thrown] by auto
    next
      case Undefined
      then show ?thesis using AllocatePercentage_defined by blast
    qed
  qed
  assume res: "SpreadPercentage b = Done u b' \<or> SpreadPercentage b = Thrown e b'"
  show ?thesis
  proof (cases "SpreadPercentage_each (100 div nodes_size b) (m_nodes b) b")
    case (Done u1 b1)
    then have b1: "m_nodes b1 = m_nodes b \<and> branch_base b1 = branch_base b"
      using each by blast
    show ?thesis
    proof (cases "m_lastAllocated b1 = 100")
      case True
      then show ?thesis
        using res Done b1 by (auto simp: SpreadPercentage_def Let_def split: if_splits)
    next
      case False
      then have "SpreadPercentage_each 1 (take (unat (100 - m_lastAllocated b1)) (m_nodes b1)) b1 = Done u b'
         \<or> SpreadPercentage_each 1 (take (unat (100 - m_lastAllocated b1)) (m_nodes b1)) b1 = Thrown e b'"
        using res Done
        by (auto simp: SpreadPercentage_def Let_def SpreadPercentage_rest_each split: if_splits)
      then show ?thesis using b1 each by metis
    qed
  next
    case (Thrown e1 b1)
    then have "m_nodes b1 = m_nodes b \<and> branch_base b1 = branch_base b"
      using each by blast
    then show ?thesis
      using res Thrown by (auto simp: SpreadPercentage_def Let_def split: if_splits)
  next
    case Undefined
    then show ?thesis using SpreadPercentage_each_defined by blast
  qed
qed

lemma SpreadPercentageOnAllNotSetNodes_ptrs:
  fixes b :: "('o, 'r) Branch" and nodes :: "('o, 'r) TreeNode list"
  shows "SpreadPercentageOnAllNotSetNodes b = Done u b'
           \<or> SpreadPercentageOnAllNotSetNodes b = Thrown e b' \<Longrightarrow>
         branch_base b' = branch_base b \<and> map ptr_of (m_nodes b') = map ptr_of (m_nodes b)"
    and "SpreadPercentageOnAllNotSetNodes_loop nodes = Done u nodes'
           \<or> SpreadPercentageOnAllNotSetNodes_loop nodes = Thrown e nodes' \<Longrightarrow>
         map ptr_of nodes' = map ptr_of nodes"
proof (induction b and nodes arbitrary: u e b' and u e nodes'
    rule: spread_unset_spread_unset_in.induct)
  case (1 members nodes m slots l)
  let ?B = "Branch members nodes m slots l"
  let ?own = "if l = 0 then SpreadPercentage ?B else Done () ?B"
  have returned: "branch_base s = members \<and> m_nodes s = nodes" if "?own = Done r s" for r s
    using that SpreadPercentage_base [of ?B r s] by (auto split: if_splits)
  have thrown: "branch_base s = members \<and> m_nodes s = nodes" if "?own = Thrown x s" for x s
    using that SpreadPercentage_base [of ?B _ s x] by (auto split: if_splits)
  have loop: "map ptr_of ns = map ptr_of nodes"
    if "SpreadPercentageOnAllNotSetNodes_loop nodes = Done r ns
        \<or> SpreadPercentageOnAllNotSetNodes_loop nodes = Thrown x ns" for r x ns
    using that "1.IH" by blast
  have res: "(case ?own of
        Done _ b1 \<Rightarrow>
          (case SpreadPercentageOnAllNotSetNodes_loop nodes of
             Done _ nodes' \<Rightarrow>
               Done () (Branch (branch_base b1) nodes' (m_nodesPercentageMap b1)
                 (m_percentageAllocations b1) (m_lastAllocated b1))
           | Thrown e nodes' \<Rightarrow>
               Thrown e (Branch (branch_base b1) nodes' (m_nodesPercentageMap b1)
                 (m_percentageAllocations b1) (m_lastAllocated b1))
           | Undefined \<Rightarrow> Undefined)
      | Thrown e b1 \<Rightarrow> Thrown e b1
      | Undefined \<Rightarrow> Undefined) = Done u b' \<or>
      (case ?own of
        Done _ b1 \<Rightarrow>
          (case SpreadPercentageOnAllNotSetNodes_loop nodes of
             Done _ nodes' \<Rightarrow>
               Done () (Branch (branch_base b1) nodes' (m_nodesPercentageMap b1)
                 (m_percentageAllocations b1) (m_lastAllocated b1))
           | Thrown e nodes' \<Rightarrow>
               Thrown e (Branch (branch_base b1) nodes' (m_nodesPercentageMap b1)
                 (m_percentageAllocations b1) (m_lastAllocated b1))
           | Undefined \<Rightarrow> Undefined)
      | Thrown e b1 \<Rightarrow> Thrown e b1
      | Undefined \<Rightarrow> Undefined) = Thrown e b'"
    using "1.prems" by simp
  show ?case
  proof (cases ?own)
    case (Done r s)
    note own = this
    show ?thesis
    proof (cases "SpreadPercentageOnAllNotSetNodes_loop nodes")
      case (Done r2 ns)
      then show ?thesis using res own returned [OF own] loop [of r2 ns] by auto
    next
      case (Thrown x ns)
      then show ?thesis using res own returned [OF own] loop [of _ ns x] by auto
    next
      case Undefined
      then show ?thesis using res own by auto
    qed
  next
    case (Thrown x s)
    then show ?thesis using res thrown [OF Thrown] by auto
  next
    case Undefined
    then show ?thesis using res by auto
  qed
next
  case 2
  then show ?case by auto
next
  case (3 lf rest)
  have loop: "map ptr_of ns = map ptr_of rest"
    if "SpreadPercentageOnAllNotSetNodes_loop rest = Done r ns
        \<or> SpreadPercentageOnAllNotSetNodes_loop rest = Thrown x ns" for r x ns
    using that "3.IH" by blast
  show ?case
  proof (cases "SpreadPercentageOnAllNotSetNodes_loop rest")
    case (Done r ns)
    then show ?thesis using "3.prems" loop [of r ns] by auto
  next
    case (Thrown x ns)
    then show ?thesis using "3.prems" loop [of _ ns x] by auto
  next
    case Undefined
    then show ?thesis using "3.prems" by auto
  qed
next
  case (4 b rest)
  have head: "ptr_of (BranchNode s) = ptr_of (BranchNode b)"
    if "SpreadPercentageOnAllNotSetNodes b = Done r s
        \<or> SpreadPercentageOnAllNotSetNodes b = Thrown x s" for r x s
    using that "4.IH"(1) [of r s x] by (simp add: ptr_of_def)
  have loop: "map ptr_of ns = map ptr_of rest"
    if "SpreadPercentageOnAllNotSetNodes_loop rest = Done r ns
        \<or> SpreadPercentageOnAllNotSetNodes_loop rest = Thrown x ns" for r x ns
    using that "4.IH"(2) by blast
  show ?case
  proof (cases "SpreadPercentageOnAllNotSetNodes b")
    case (Done r s)
    note own = this
    show ?thesis
    proof (cases "SpreadPercentageOnAllNotSetNodes_loop rest")
      case (Done r2 ns)
      then show ?thesis using "4.prems" own head [of r s] loop [of r2 ns] by auto
    next
      case (Thrown x ns)
      then show ?thesis using "4.prems" own head [of r s] loop [of _ ns x] by auto
    next
      case Undefined
      then show ?thesis using "4.prems" own by auto
    qed
  next
    case (Thrown x s)
    then show ?thesis using "4.prems" head [of _ s x] by auto
  next
    case Undefined
    then show ?thesis using "4.prems" by auto
  qed
qed

lemma SpreadPercentageOnAllNotSetNodes_inv:
  assumes inv: "Branch_inv b"
    and res: "SpreadPercentageOnAllNotSetNodes b = Done u b'
       \<or> SpreadPercentageOnAllNotSetNodes b = Thrown e b'"
  shows "Branch_inv b'"
proof -
  obtain members nodes m slots l where b: "b = Branch members nodes m slots l" by (cases b)
  let ?B = "Branch members nodes m slots l"
  let ?own = "if l = 0 then SpreadPercentage ?B else Done () ?B"
  have ptrs: "map ptr_of (m_nodes b') = map ptr_of nodes"
    using SpreadPercentageOnAllNotSetNodes_ptrs(1) [OF res] by (simp add: b)
  have invB: "Branch_inv ?B" using inv by (simp add: b)
  have own_inv: "Branch_inv s \<and> m_nodes s = nodes"
    if "?own = Done r s \<or> ?own = Thrown x s" for r x s
    using that invB SpreadPercentage_inv [of ?B r s x] SpreadPercentage_base [of ?B r s x]
    by (auto split: if_splits)
  have res': "SpreadPercentageOnAllNotSetNodes ?B = Done u b'
       \<or> SpreadPercentageOnAllNotSetNodes ?B = Thrown e b'"
    using res by (simp add: b)
  show ?thesis
  proof (cases ?own)
    case (Done r s)
    then have s: "Branch_inv s" "m_nodes s = nodes" using own_inv [of r s] by auto
    have "m_nodesPercentageMap b' = m_nodesPercentageMap s
        \<and> m_percentageAllocations b' = m_percentageAllocations s
        \<and> m_lastAllocated b' = m_lastAllocated s"
      using res' Done
      by (cases "SpreadPercentageOnAllNotSetNodes_loop nodes") auto
    then show ?thesis
      using s ptrs by (simp add: Branch_inv_def)
  next
    case (Thrown x s)
    then have "Branch_inv s" using own_inv [of _ s x] by auto
    moreover have "b' = s" using res' Thrown by auto
    ultimately show ?thesis by simp
  next
    case Undefined
    then show ?thesis using res' by auto
  qed
qed

lemma reachable_inv: "reachable b \<Longrightarrow> Branch_inv b"
proof (induction rule: reachable.induct)
  case (constructed uninit_slots uninit a name)
  then show ?case by (rule Branch_new_inv)
next
  case (added b node)
  then show ?case by (simp add: AddNode_inv)
next
  case (allocated b percentage node u b')
  then show ?case using AllocatePercentage_inv by blast
next
  case (spread b u b' e)
  then show ?case using SpreadPercentage_inv by blast
next
  case (reset b)
  then show ?case by (simp add: ResetAllocations_inv)
next
  case (spread_all b u b' e)
  then show ?case using SpreadPercentageOnAllNotSetNodes_inv by blast
next
  case (members b members)
  then show ?case by (simp add: Branch_inv_children)
next
  case (children b nodes)
  then show ?case by (simp add: Branch_inv_children)
qed

end
